theory Spec2Isabelle
  imports Main "HOL-Library.Word"
begin

section \<open>Data model\<close>

text \<open>
  A shallow embedding of the lock-free queue of \<open>queue.h\<close>, executed one operation at a
  time; one execution with two producers splits a pass of \<open>push\<close> at its claim. Heap objects live in two typed stores indexed by addresses: the nodes and the
  heap copies of the queued values. A raw pointer is an \<open>addr option\<close>, \<open>None\<close> being
  \<open>nullptr\<close>; a pointer to an address that is absent from its store is dangling.

  \<open>counted_node_ptr\<close>: the field \<open>external_count\<close> is a C++ \<open>int\<close>, taken as a 32-bit
  two's-complement word (read with \<open>sint\<close>); where C++ leaves signed overflow undefined
  the model wraps. \<open>node_counter\<close>: the two unsigned bit-fields, 30 and 2 bits wide.
  Both records have a field called \<open>external_count\<close>, as in the source; they are told
  apart by their qualified names.
\<close>

type_synonym addr = nat

record counted_node_ptr =
  external_count :: "32 word"
  ptr :: "addr option"

record node_counter =
  internal_count :: "30 word"
  external_count :: "2 word"

record node =
  data :: "addr option"
  count :: node_counter
  "next" :: counted_node_ptr

text \<open>
  The queue object (the atomics \<open>head\<close> and \<open>tail\<close>) together with the memory it works
  on: \<open>nodes\<close> is the store of \<open>node\<close> objects, \<open>vals\<close> the store of the \<open>T\<close> objects
  made by \<open>new T\<close>.
\<close>

record 'a state =
  head :: counted_node_ptr
  tail :: counted_node_ptr
  nodes :: "addr \<rightharpoonup> node"
  vals :: "addr \<rightharpoonup> 'a"

text \<open>
  Errors as values. \<open>fault\<close> is undefined behaviour of the C++ program: dereferencing a
  null pointer, or using or deleting an object that is not allocated. \<open>Bad_alloc s\<close> is
  the exception \<open>std::bad_alloc\<close> leaving the function in state \<open>s\<close>.
\<close>

datatype fault = Null_deref | Dangling

datatype 's error = Bad_alloc 's | Fault fault

text \<open>The outcome of one pass through the body of a \<open>for (;;)\<close> loop.\<close>

datatype ('b, 'c) loop_step = Break 'b | Continue 'c

section \<open>Atomics and pointers\<close>

text \<open>
  \<open>compare_exchange_strong\<close> on an atomic holding \<open>cell\<close>: the result is the success flag,
  the new contents of the atomic, and the new contents of the caller's \<open>expected\<close>
  variable (refreshed from the atomic when the comparison fails). The comparison is on
  values; padding bytes of the C++ object are not modelled, and memory orders have no
  counterpart in a sequential execution.
\<close>

definition cas :: "'v \<Rightarrow> 'v \<Rightarrow> 'v \<Rightarrow> bool \<times> 'v \<times> 'v" where
  "cas cell expected desired =
     (if cell = expected then (True, desired, expected) else (False, cell, cell))"

text \<open>
  \<open>deref\<close> is \<open>p->\<close> on a pointer that must name a live object; \<open>deref_opt\<close> is the
  caller's \<open>if (result) ... *result\<close> on the pointer returned by \<open>pop\<close>.
\<close>

definition deref :: "(addr \<rightharpoonup> 'b) \<Rightarrow> addr option \<Rightarrow> fault + addr \<times> 'b" where
  "deref h p =
     (case p of
        None \<Rightarrow> Inl Null_deref
      | Some a \<Rightarrow> (case h a of None \<Rightarrow> Inl Dangling | Some x \<Rightarrow> Inr (a, x)))"

definition deref_opt :: "(addr \<rightharpoonup> 'b) \<Rightarrow> addr option \<Rightarrow> fault + 'b option" where
  "deref_opt h p =
     (case p of
        None \<Rightarrow> Inr None
      | Some a \<Rightarrow> (case h a of None \<Rightarrow> Inl Dangling | Some x \<Rightarrow> Inr (Some x)))"

section \<open>The node\<close>

text \<open>The object built by the constructor \<open>node()\<close>.\<close>

definition new_node :: node where
  "new_node =
     \<lparr>data = None,
      count = \<lparr>internal_count = 0, node_counter.external_count = 2\<rparr>,
      next = \<lparr>counted_node_ptr.external_count = 0, ptr = None\<rparr>\<rparr>"

text \<open>
  \<open>node::release_ref\<close>. The do-while CAS loop takes the contents of the atomic \<open>count\<close>
  and the local \<open>old_counter\<close>, and returns the new contents and \<open>new_counter\<close>. It
  terminates because a failed CAS refreshes \<open>old_counter\<close>, so that the next one
  succeeds. \<open>--new_counter.internal_count\<close> on the 30-bit field is subtraction on
  \<open>30 word\<close>. \<open>delete this\<close> removes the node from the store.
\<close>

function release_ref_loop :: "node_counter \<Rightarrow> node_counter \<Rightarrow> node_counter \<times> node_counter" where
  "release_ref_loop cell old_counter =
     (let new_counter = old_counter\<lparr>internal_count := internal_count old_counter - 1\<rparr>;
          (ok, cell', old_counter') = cas cell old_counter new_counter
      in if ok then (cell', new_counter) else release_ref_loop cell' old_counter')"
  by pat_completeness auto
termination
  by (relation "measure (\<lambda>(cell, old_counter). if cell = old_counter then 0 else 1)")
     (auto simp: cas_def split: if_splits)

definition release_ref :: "addr \<Rightarrow> (addr \<rightharpoonup> node) \<Rightarrow> fault + (addr \<rightharpoonup> node)" where
  "release_ref this h =
     (case h this of
        None \<Rightarrow> Inl Dangling
      | Some nd \<Rightarrow>
          let old_counter = count nd;
              (cell, new_counter) = release_ref_loop (count nd) old_counter;
              h1 = h(this \<mapsto> nd\<lparr>count := cell\<rparr>)
          in if internal_count new_counter = 0 \<and> node_counter.external_count new_counter = 0
             then Inr (h1(this := None))
             else Inr h1)"

section \<open>The reference-counting helpers of the queue\<close>

text \<open>
  \<open>increase_external_count(counter, old_counter)\<close>: the arguments are the contents of the
  atomic slot and of the caller's variable, the result their new contents.
\<close>

function increase_external_count ::
  "counted_node_ptr \<Rightarrow> counted_node_ptr \<Rightarrow> counted_node_ptr \<times> counted_node_ptr" where
  "increase_external_count counter old_counter =
     (let new_counter = old_counter\<lparr>counted_node_ptr.external_count :=
                                      counted_node_ptr.external_count old_counter + 1\<rparr>;
          (ok, counter', old_counter') = cas counter old_counter new_counter
      in if ok
         then (counter', old_counter'\<lparr>counted_node_ptr.external_count :=
                                        counted_node_ptr.external_count new_counter\<rparr>)
         else increase_external_count counter' old_counter')"
  by pat_completeness auto
termination
  by (relation "measure (\<lambda>(counter, old_counter). if counter = old_counter then 0 else 1)")
     (auto simp: cas_def split: if_splits)

text \<open>
  \<open>free_external_counter\<close>. \<open>count_increase\<close> is the \<open>int\<close> \<open>external_count - 2\<close>. In
  \<open>new_counter.internal_count += count_increase\<close> the bit-field is promoted to \<open>int\<close>,
  the sum is taken there, and the result is converted back to the 30-bit field.
\<close>

function free_external_counter_loop ::
  "32 word \<Rightarrow> node_counter \<Rightarrow> node_counter \<Rightarrow> node_counter \<times> node_counter" where
  "free_external_counter_loop count_increase cell old_counter =
     (let new_counter =
            old_counter\<lparr>node_counter.external_count := node_counter.external_count old_counter - 1\<rparr>;
          new_counter =
            new_counter\<lparr>internal_count := ucast (ucast (internal_count new_counter) + count_increase)\<rparr>;
          (ok, cell', old_counter') = cas cell old_counter new_counter
      in if ok then (cell', new_counter)
         else free_external_counter_loop count_increase cell' old_counter')"
  by pat_completeness auto
termination
  by (relation "measure (\<lambda>(ci, cell, old_counter). if cell = old_counter then 0 else 1)")
     (auto simp: cas_def split: if_splits)

definition free_external_counter ::
  "counted_node_ptr \<Rightarrow> (addr \<rightharpoonup> node) \<Rightarrow> fault + (addr \<rightharpoonup> node)" where
  "free_external_counter old_node_ptr h =
     (case deref h (ptr old_node_ptr) of
        Inl e \<Rightarrow> Inl e
      | Inr (p, nd) \<Rightarrow>
          let count_increase = counted_node_ptr.external_count old_node_ptr - 2;
              old_counter = count nd;
              (cell, new_counter) = free_external_counter_loop count_increase (count nd) old_counter;
              h1 = h(p \<mapsto> nd\<lparr>count := cell\<rparr>)
          in if internal_count new_counter = 0 \<and> node_counter.external_count new_counter = 0
             then Inr (h1(p := None))
             else Inr h1)"

section \<open>push\<close>

text \<open>
  One pass through the loop of \<open>push\<close>: claim the tail, try to install the data pointer;
  on success link the new dummy, swing \<open>tail\<close>, retire the old slot and leave the loop,
  otherwise release the claim and go round again with the refreshed \<open>old_tail\<close>.
\<close>

definition push_body ::
  "addr \<Rightarrow> counted_node_ptr \<Rightarrow> counted_node_ptr \<Rightarrow> 'a state
   \<Rightarrow> 'a state error + ('a state, counted_node_ptr \<times> 'a state) loop_step" where
  "push_body new_data new_next old_tail s =
     (let (t, old_tail) = increase_external_count (tail s) old_tail;
          s = s\<lparr>tail := t\<rparr>
      in case deref (nodes s) (ptr old_tail) of
           Inl f \<Rightarrow> Inl (Fault f)
         | Inr (p, nd) \<Rightarrow>
             let (ok, cell, old_data) = cas (data nd) None (Some new_data) in
             if ok then
               let s = s\<lparr>nodes := (nodes s)(p \<mapsto> nd\<lparr>data := cell, next := new_next\<rparr>)\<rparr>;
                   old_tail = tail s;
                   s = s\<lparr>tail := new_next\<rparr>
               in (case free_external_counter old_tail (nodes s) of
                     Inl f \<Rightarrow> Inl (Fault f)
                   | Inr h \<Rightarrow> Inr (Break (s\<lparr>nodes := h\<rparr>)))
             else
               (case release_ref p (nodes s) of
                  Inl f \<Rightarrow> Inl (Fault f)
                | Inr h \<Rightarrow> Inr (Continue (old_tail, s\<lparr>nodes := h\<rparr>))))"

text \<open>
  The loop itself may run for ever when it is executed alone (a tail node whose data is
  already set is never advanced by anybody else), hence the option type: \<open>None\<close> is
  divergence.
\<close>

partial_function (option) push_loop ::
  "addr \<Rightarrow> counted_node_ptr \<Rightarrow> counted_node_ptr \<Rightarrow> 'a state \<Rightarrow> ('a state error + 'a state) option" where
  "push_loop new_data new_next old_tail s =
     (case push_body new_data new_next old_tail s of
        Inl e \<Rightarrow> Some (Inl e)
      | Inr (Break s') \<Rightarrow> Some (Inr s')
      | Inr (Continue (old_tail', s')) \<Rightarrow> push_loop new_data new_next old_tail' s')"

declare push_loop.simps [code]

text \<open>
  \<open>push(new_value)\<close>. The results of the two allocations are arguments: \<open>alloc_data\<close>
  for \<open>new T(std::move(new_value))\<close> and \<open>alloc_node\<close> for \<open>new node\<close>, each either the
  address handed out or \<open>None\<close> for \<open>std::bad_alloc\<close>. When the second allocation throws,
  the \<open>unique_ptr\<close> holding the first releases it during unwinding.
\<close>

definition push ::
  "'a \<Rightarrow> addr option \<Rightarrow> addr option \<Rightarrow> 'a state \<Rightarrow> ('a state error + 'a state) option" where
  "push new_value alloc_data alloc_node s =
     (case alloc_data of
        None \<Rightarrow> Some (Inl (Bad_alloc s))
      | Some new_data \<Rightarrow>
          let s = s\<lparr>vals := (vals s)(new_data \<mapsto> new_value)\<rparr> in
          (case alloc_node of
             None \<Rightarrow> Some (Inl (Bad_alloc (s\<lparr>vals := (vals s)(new_data := None)\<rparr>)))
           | Some n \<Rightarrow>
               let s = s\<lparr>nodes := (nodes s)(n \<mapsto> new_node)\<rparr>;
                   new_next = \<lparr>counted_node_ptr.external_count = 1, ptr = Some n\<rparr>;
                   old_tail = tail s
               in push_loop new_data new_next old_tail s))"

text \<open>
  The same pass in two steps, for executions in which other threads run between the claim
  of the tail and the data CAS: \<open>push_claim\<close> is the call of
  \<open>increase_external_count(tail, old_tail)\<close>, \<open>push_install\<close> everything after it, working
  on the \<open>old_tail\<close> that the thread has kept in its local variable.
\<close>

definition push_claim :: "counted_node_ptr \<Rightarrow> 'a state \<Rightarrow> counted_node_ptr \<times> 'a state" where
  "push_claim old_tail s =
     (let (t, old_tail) = increase_external_count (tail s) old_tail;
          s = s\<lparr>tail := t\<rparr>
      in (old_tail, s))"

definition push_install ::
  "addr \<Rightarrow> counted_node_ptr \<Rightarrow> counted_node_ptr \<Rightarrow> 'a state
   \<Rightarrow> 'a state error + ('a state, counted_node_ptr \<times> 'a state) loop_step" where
  "push_install new_data new_next old_tail s =
     (case deref (nodes s) (ptr old_tail) of
        Inl f \<Rightarrow> Inl (Fault f)
      | Inr (p, nd) \<Rightarrow>
          let (ok, cell, old_data) = cas (data nd) None (Some new_data) in
          if ok then
            let s = s\<lparr>nodes := (nodes s)(p \<mapsto> nd\<lparr>data := cell, next := new_next\<rparr>)\<rparr>;
                old_tail = tail s;
                s = s\<lparr>tail := new_next\<rparr>
            in (case free_external_counter old_tail (nodes s) of
                  Inl f \<Rightarrow> Inl (Fault f)
                | Inr h \<Rightarrow> Inr (Break (s\<lparr>nodes := h\<rparr>)))
          else
            (case release_ref p (nodes s) of
               Inl f \<Rightarrow> Inl (Fault f)
             | Inr h \<Rightarrow> Inr (Continue (old_tail, s\<lparr>nodes := h\<rparr>))))"

section \<open>pop\<close>

text \<open>
  One pass through the loop of \<open>pop\<close>. The result of \<open>pop\<close> is the raw pointer owned by
  the returned \<open>unique_ptr\<close>; \<open>None\<close> is the empty result.
\<close>

definition pop_body ::
  "counted_node_ptr \<Rightarrow> 'a state
   \<Rightarrow> 'a state error + ('a state \<times> addr option, counted_node_ptr \<times> 'a state) loop_step" where
  "pop_body old_head s =
     (let (hd_cell, old_head) = increase_external_count (head s) old_head;
          s = s\<lparr>head := hd_cell\<rparr>;
          p = ptr old_head
      in if p = ptr (tail s) then
           (case p of
              None \<Rightarrow> Inl (Fault Null_deref)
            | Some this \<Rightarrow>
                (case release_ref this (nodes s) of
                   Inl f \<Rightarrow> Inl (Fault f)
                 | Inr h \<Rightarrow> Inr (Break (s\<lparr>nodes := h\<rparr>, None))))
         else
           (case deref (nodes s) p of
              Inl f \<Rightarrow> Inl (Fault f)
            | Inr (a, nd) \<Rightarrow>
                let (ok, hd_cell, old_head) = cas (head s) old_head (next nd);
                    s = s\<lparr>head := hd_cell\<rparr>
                in if ok then
                     let res = data nd;
                         s = s\<lparr>nodes := (nodes s)(a \<mapsto> nd\<lparr>data := None\<rparr>)\<rparr>
                     in (case free_external_counter old_head (nodes s) of
                           Inl f \<Rightarrow> Inl (Fault f)
                         | Inr h \<Rightarrow> Inr (Break (s\<lparr>nodes := h\<rparr>, res)))
                   else
                     (case release_ref a (nodes s) of
                        Inl f \<Rightarrow> Inl (Fault f)
                      | Inr h \<Rightarrow> Inr (Continue (old_head, s\<lparr>nodes := h\<rparr>)))))"

partial_function (option) pop_loop ::
  "counted_node_ptr \<Rightarrow> 'a state \<Rightarrow> ('a state error + 'a state \<times> addr option) option" where
  "pop_loop old_head s =
     (case pop_body old_head s of
        Inl e \<Rightarrow> Some (Inl e)
      | Inr (Break r) \<Rightarrow> Some (Inr r)
      | Inr (Continue (old_head', s')) \<Rightarrow> pop_loop old_head' s')"

declare pop_loop.simps [code]

definition pop :: "'a state \<Rightarrow> ('a state error + 'a state \<times> addr option) option" where
  "pop s = (let old_head = head s in pop_loop old_head s)"

section \<open>Construction and destruction\<close>

text \<open>The destructor of a \<open>std::unique_ptr<T>\<close>: deletes the object it owns, if any.\<close>

definition unique_ptr_dtor :: "addr option \<Rightarrow> 'a state \<Rightarrow> 'a state error + 'a state" where
  "unique_ptr_dtor p s =
     (case p of
        None \<Rightarrow> Inr s
      | Some v \<Rightarrow>
          (case vals s v of
             None \<Rightarrow> Inl (Fault Dangling)
           | Some _ \<Rightarrow> Inr (s\<lparr>vals := (vals s)(v := None)\<rparr>)))"

text \<open>
  The constructor, run on the storage \<open>s\<close> of the queue object (whatever \<open>head\<close> and
  \<open>tail\<close> hold before is overwritten); \<open>alloc_node\<close> is the result of \<open>new node\<close>.
\<close>

definition lock_free_queue :: "addr option \<Rightarrow> 'a state \<Rightarrow> 'a state error + 'a state" where
  "lock_free_queue alloc_node s =
     (case alloc_node of
        None \<Rightarrow> Inl (Bad_alloc s)
      | Some dummy \<Rightarrow>
          let s = s\<lparr>nodes := (nodes s)(dummy \<mapsto> new_node)\<rparr>;
              dummy_ptr = \<lparr>counted_node_ptr.external_count = 1, ptr = Some dummy\<rparr>;
              s = s\<lparr>head := dummy_ptr\<rparr>;
              s = s\<lparr>tail := dummy_ptr\<rparr>
          in Inr s)"

text \<open>
  The destructor: \<open>while (pop()) {}\<close>, where each temporary \<open>unique_ptr\<close> is destroyed
  after the test, followed by \<open>delete head.load().ptr\<close>.
\<close>

partial_function (option) dtor_loop :: "'a state \<Rightarrow> ('a state error + 'a state) option" where
  "dtor_loop s =
     (case pop s of
        None \<Rightarrow> None
      | Some (Inl e) \<Rightarrow> Some (Inl e)
      | Some (Inr (s', res)) \<Rightarrow>
          (case unique_ptr_dtor res s' of
             Inl e \<Rightarrow> Some (Inl e)
           | Inr s'' \<Rightarrow> if res \<noteq> None then dtor_loop s'' else Some (Inr s'')))"

declare dtor_loop.simps [code]

definition lock_free_queue_dtor :: "'a state \<Rightarrow> ('a state error + 'a state) option" where
  "lock_free_queue_dtor s =
     (case dtor_loop s of
        None \<Rightarrow> None
      | Some (Inl e) \<Rightarrow> Some (Inl e)
      | Some (Inr s) \<Rightarrow>
          (case ptr (head s) of
             None \<Rightarrow> Some (Inr s)
           | Some front \<Rightarrow>
               (case nodes s front of
                  None \<Rightarrow> Some (Inl (Fault Dangling))
                | Some _ \<Rightarrow> Some (Inr (s\<lparr>nodes := (nodes s)(front := None)\<rparr>)))))"

section \<open>Sequences of operations\<close>

text \<open>
  A client that calls the queue one operation at a time. \<open>Push v d n\<close> is \<open>push(v)\<close> where
  the allocator answers \<open>d\<close> for the value copy and \<open>n\<close> for the node; \<open>Pop\<close> is what the
  consumer of \<open>main.cpp\<close> does: call \<open>pop\<close>, read the value if the result is non-null,
  and let the \<open>unique_ptr\<close> go out of scope. \<open>run\<close> collects the values read (\<open>None\<close> for
  an empty pop). \<open>allocs_fresh\<close> says that the allocator only hands out addresses that are
  unused at the time of the call, \<open>pushed\<close> lists the values pushed, and \<open>somes\<close> drops the
  empty results.
\<close>

datatype 'a op = Push 'a addr addr | Pop

definition step :: "'a op \<Rightarrow> 'a state \<Rightarrow> ('a state error + 'a state \<times> 'a option list) option" where
  "step c s =
     (case c of
        Push v d n \<Rightarrow>
          (case push v (Some d) (Some n) s of
             None \<Rightarrow> None
           | Some (Inl e) \<Rightarrow> Some (Inl e)
           | Some (Inr s') \<Rightarrow> Some (Inr (s', [])))
      | Pop \<Rightarrow>
          (case pop s of
             None \<Rightarrow> None
           | Some (Inl e) \<Rightarrow> Some (Inl e)
           | Some (Inr (s', res)) \<Rightarrow>
               (case deref_opt (vals s') res of
                  Inl f \<Rightarrow> Some (Inl (Fault f))
                | Inr out \<Rightarrow>
                    (case unique_ptr_dtor res s' of
                       Inl e \<Rightarrow> Some (Inl e)
                     | Inr s'' \<Rightarrow> Some (Inr (s'', [out]))))))"

fun run :: "'a state \<Rightarrow> 'a op list \<Rightarrow> ('a state error + 'a state \<times> 'a option list) option" where
  "run s [] = Some (Inr (s, []))"
| "run s (c # cs) =
     (case step c s of
        None \<Rightarrow> None
      | Some (Inl e) \<Rightarrow> Some (Inl e)
      | Some (Inr (s', out)) \<Rightarrow>
          (case run s' cs of
             None \<Rightarrow> None
           | Some (Inl e) \<Rightarrow> Some (Inl e)
           | Some (Inr (s'', outs)) \<Rightarrow> Some (Inr (s'', out @ outs))))"

fun allocs_fresh :: "'a state \<Rightarrow> 'a op list \<Rightarrow> bool" where
  "allocs_fresh s [] = True"
| "allocs_fresh s (c # cs) =
     ((case c of Push v d n \<Rightarrow> vals s d = None \<and> nodes s n = None | Pop \<Rightarrow> True) \<and>
      (case step c s of Some (Inr (s', out)) \<Rightarrow> allocs_fresh s' cs | _ \<Rightarrow> True))"

fun pushed :: "'a op list \<Rightarrow> 'a list" where
  "pushed [] = []"
| "pushed (Push v d n # cs) = v # pushed cs"
| "pushed (Pop # cs) = pushed cs"

fun somes :: "'a option list \<Rightarrow> 'a list" where
  "somes [] = []"
| "somes (None # rs) = somes rs"
| "somes (Some v # rs) = v # somes rs"

section \<open>Representation invariant of quiescent states\<close>

text \<open>
  Between operations the queue is a chain of distinct nodes \<open>as\<close> from \<open>head\<close> to \<open>tail\<close>;
  all but the last carry the data pointers \<open>ds\<close> and are held by one slot, the last is the
  dummy held by two (or by \<open>tail\<close> and, when the queue is empty, \<open>head\<close>). The internal
  count of the first node is \<open>1\<close> minus the external count of \<open>head\<close> in the 30-bit
  arithmetic, that of every other node is \<open>0\<close>. \<open>ninv\<close> adds that the queue owns exactly
  the nodes \<open>as\<close> on top of the memory \<open>ns0\<close> it was built in, \<open>vinv\<close> the same for the
  value copies \<open>ds\<close>, and \<open>queued\<close> reads the queued values.
\<close>

fun chain :: "(addr \<rightharpoonup> node) \<Rightarrow> 30 word \<Rightarrow> addr list \<Rightarrow> addr list \<Rightarrow> bool" where
  "chain h ic [] ds = False"
| "chain h ic (a # as) ds =
     (case h a of
        None \<Rightarrow> False
      | Some nd \<Rightarrow>
          (case as of
             [] \<Rightarrow>
               ds = [] \<and> data nd = None \<and>
               count nd = \<lparr>internal_count = ic, node_counter.external_count = 2\<rparr>
           | b # bs \<Rightarrow>
               (case ds of
                  [] \<Rightarrow> False
                | d # ds' \<Rightarrow>
                    data nd = Some d \<and>
                    count nd = \<lparr>internal_count = ic, node_counter.external_count = 1\<rparr> \<and>
                    next nd = \<lparr>counted_node_ptr.external_count = 1, ptr = Some b\<rparr> \<and>
                    chain h 0 as ds')))"

definition ninv :: "(addr \<rightharpoonup> node) \<Rightarrow> 'a state \<Rightarrow> addr list \<Rightarrow> addr list \<Rightarrow> bool" where
  "ninv ns0 s as ds \<longleftrightarrow>
     distinct as \<and> as \<noteq> [] \<and>
     (\<forall>a\<in>set as. ns0 a = None) \<and>
     (\<forall>b. b \<notin> set as \<longrightarrow> nodes s b = ns0 b) \<and>
     ptr (head s) = Some (hd as) \<and>
     tail s = \<lparr>counted_node_ptr.external_count = 1, ptr = Some (last as)\<rparr> \<and>
     chain (nodes s) (1 - ucast (counted_node_ptr.external_count (head s))) as ds"

definition vinv :: "(addr \<rightharpoonup> 'a) \<Rightarrow> 'a state \<Rightarrow> addr list \<Rightarrow> bool" where
  "vinv vs0 s ds \<longleftrightarrow>
     distinct ds \<and>
     (\<forall>d\<in>set ds. vs0 d = None \<and> vals s d \<noteq> None) \<and>
     (\<forall>p. p \<notin> set ds \<longrightarrow> vals s p = vs0 p)"

definition queued :: "'a state \<Rightarrow> addr list \<Rightarrow> 'a list" where
  "queued s ds = map (\<lambda>d. the (vals s d)) ds"

section \<open>Concrete states\<close>

text \<open>
  \<open>fresh_queue\<close> is the queue constructed in \<open>empty_memory\<close> with its dummy at address
  \<open>0\<close>. \<open>contended_tail\<close> is a state in the middle of a concurrent execution: a consumer
  has polled the empty queue \<open>2 ^ 30 - 1\<close> times, a producer has claimed the tail and
  installed its data pointer \<open>5\<close> but not yet swung \<open>tail\<close>, and a second producer, whose
  value copy is at \<open>6\<close> and whose new dummy at \<open>2\<close>, is about to enter its loop.
\<close>

definition empty_memory :: "nat state" where
  "empty_memory =
     \<lparr>head = \<lparr>counted_node_ptr.external_count = 0, ptr = None\<rparr>,
      tail = \<lparr>counted_node_ptr.external_count = 0, ptr = None\<rparr>,
      nodes = Map.empty,
      vals = Map.empty\<rparr>"

definition fresh_queue :: "nat state" where
  "fresh_queue =
     \<lparr>head = \<lparr>counted_node_ptr.external_count = 1, ptr = Some 0\<rparr>,
      tail = \<lparr>counted_node_ptr.external_count = 1, ptr = Some 0\<rparr>,
      nodes = Map.empty(0 \<mapsto> new_node),
      vals = Map.empty\<rparr>"

definition contended_tail :: "nat state" where
  "contended_tail =
     \<lparr>head = \<lparr>counted_node_ptr.external_count = 1073741824, ptr = Some 0\<rparr>,
      tail = \<lparr>counted_node_ptr.external_count = 2, ptr = Some 0\<rparr>,
      nodes = Map.empty
        (0 \<mapsto> \<lparr>data = Some 5,
                 count = \<lparr>internal_count = 1, node_counter.external_count = 2\<rparr>,
                 next = \<lparr>counted_node_ptr.external_count = 0, ptr = None\<rparr>\<rparr>,
         1 \<mapsto> new_node,
         2 \<mapsto> new_node),
      vals = Map.empty(5 \<mapsto> 10, 6 \<mapsto> 20)\<rparr>"

text \<open>
  Two producers and a consumer on \<open>fresh_queue\<close>. The second producer has entered
  \<open>push(20)\<close>: its value copy is at address \<open>1\<close>, its new dummy at \<open>2\<close>, it has loaded
  \<open>tail\<close> and claimed it, and is preempted before the data CAS.
  \<open>second_producer_claimed\<close> is its local \<open>old_tail\<close> together with the shared state at
  that moment. \<open>outputs\<close> reads the pop results of a run that returned.
\<close>

definition second_producer_claimed :: "counted_node_ptr \<times> nat state" where
  "second_producer_claimed =
     (let s = fresh_queue\<lparr>vals := (vals fresh_queue)(1 \<mapsto> 20)\<rparr>;
          s = s\<lparr>nodes := (nodes s)(2 \<mapsto> new_node)\<rparr>;
          old_tail = tail s
      in push_claim old_tail s)"

definition outputs ::
  "('a state error + 'a state \<times> 'a option list) option \<Rightarrow> 'a option list option" where
  "outputs r = (case r of Some (Inr (s, outs)) \<Rightarrow> Some outs | _ \<Rightarrow> None)"

definition demo_ops :: "nat op list" where
  "demo_ops = [Pop, Push 7 0 1, Push 8 1 2, Pop, Push 9 0 0, Pop]"

section \<open>Auxiliary lemmas\<close>

subsection \<open>The CAS loops run alone\<close>

text \<open>
  Executed without interference, each CAS loop succeeds at the latest on its second attempt,
  whatever the caller's variable held before.
\<close>

lemma cas_same: "cas c c d = (True, d, c)"
  by (simp add: cas_def)

lemma cas_diff: "c \<noteq> e \<Longrightarrow> cas c e d = (False, c, c)"
  by (simp add: cas_def)

lemma increase_external_count_eq:
  "increase_external_count c old =
     (c\<lparr>counted_node_ptr.external_count := counted_node_ptr.external_count c + 1\<rparr>,
      c\<lparr>counted_node_ptr.external_count := counted_node_ptr.external_count c + 1\<rparr>)"
proof (cases "c = old")
  case True
  then show ?thesis by (simp add: increase_external_count.simps cas_same Let_def)
next
  case False
  then have "increase_external_count c old = increase_external_count c c"
    by (subst increase_external_count.simps) (simp add: cas_diff Let_def)
  also have "\<dots> = (c\<lparr>counted_node_ptr.external_count := counted_node_ptr.external_count c + 1\<rparr>,
      c\<lparr>counted_node_ptr.external_count := counted_node_ptr.external_count c + 1\<rparr>)"
    by (subst increase_external_count.simps) (simp add: cas_same Let_def)
  finally show ?thesis .
qed

lemma release_ref_loop_eq:
  "release_ref_loop c old =
     (c\<lparr>internal_count := internal_count c - 1\<rparr>, c\<lparr>internal_count := internal_count c - 1\<rparr>)"
proof (cases "c = old")
  case True
  then show ?thesis by (simp add: release_ref_loop.simps cas_same Let_def)
next
  case False
  then have "release_ref_loop c old = release_ref_loop c c"
    by (subst release_ref_loop.simps) (simp add: cas_diff Let_def)
  also have "\<dots> = (c\<lparr>internal_count := internal_count c - 1\<rparr>, c\<lparr>internal_count := internal_count c - 1\<rparr>)"
    by (subst release_ref_loop.simps) (simp add: cas_same Let_def)
  finally show ?thesis .
qed

subsection \<open>Casts between the 32-bit int and the 30-bit field\<close>

lemma wi30_take_bit32: "(word_of_int (take_bit 32 k) :: 30 word) = word_of_int k"
  by (simp add: word_of_int_eq_iff take_bit_take_bit)

lemma uint_add32: "uint ((v::32 word) + w) = take_bit 32 (uint v + uint w)"
  by (simp add: uint_word_ariths take_bit_eq_mod)

lemma uint_diff32: "uint ((v::32 word) - w) = take_bit 32 (uint v - uint w)"
  by (simp add: uint_word_ariths take_bit_eq_mod)

lemma ucast_down_add30: "(ucast ((v::32 word) + w) :: 30 word) = ucast v + ucast w"
proof -
  have "(ucast (v + w) :: 30 word) = word_of_int (uint (v + w))"
    by (rule ucast_eq)
  also have "\<dots> = word_of_int (uint v + uint w)"
    by (simp only: uint_add32 wi30_take_bit32)
  also have "\<dots> = word_of_int (uint v) + word_of_int (uint w)"
    by (simp only: wi_hom_add)
  finally show ?thesis by (simp only: ucast_eq)
qed

lemma ucast_down_diff30: "(ucast ((v::32 word) - w) :: 30 word) = ucast v - ucast w"
proof -
  have "(ucast (v - w) :: 30 word) = word_of_int (uint (v - w))"
    by (rule ucast_eq)
  also have "\<dots> = word_of_int (uint v - uint w)"
    by (simp only: uint_diff32 wi30_take_bit32)
  also have "\<dots> = word_of_int (uint v) - word_of_int (uint w)"
    by (simp only: wi_hom_sub)
  finally show ?thesis by (simp only: ucast_eq)
qed

lemma ucast_up_down30: "(ucast (ucast (a :: 30 word) :: 32 word) :: 30 word) = a"
  by (simp add: ucast_up_ucast_id is_up)

lemma retire_internal: "(ucast (ucast (a::30 word) + (w::32 word)) :: 30 word) = a + ucast w"
  by (simp add: ucast_down_add30 ucast_up_down30)

subsection \<open>The helpers on a live node\<close>

declare increase_external_count.simps [simp del]
declare release_ref_loop.simps [simp del]
declare free_external_counter_loop.simps [simp del]

lemma free_external_counter_loop_eq:
  "free_external_counter_loop ci c old =
     (\<lparr>internal_count = ucast (ucast (internal_count c) + ci),
       node_counter.external_count = node_counter.external_count c - 1\<rparr>,
      \<lparr>internal_count = ucast (ucast (internal_count c) + ci),
       node_counter.external_count = node_counter.external_count c - 1\<rparr>)"
  (is "_ = ?r")
proof (cases "c = old")
  case True
  then show ?thesis by (subst free_external_counter_loop.simps) (simp add: cas_same Let_def)
next
  case False
  then have "free_external_counter_loop ci c old = free_external_counter_loop ci c c"
    by (subst free_external_counter_loop.simps) (simp add: cas_diff Let_def)
  also have "\<dots> = ?r"
    by (subst free_external_counter_loop.simps) (simp add: cas_same Let_def)
  finally show ?thesis .
qed

lemma release_ref_eq:
  assumes "h a = Some nd"
  shows "release_ref a h =
           Inr (if internal_count (count nd) - 1 = 0 \<and> node_counter.external_count (count nd) = 0
                then h(a := None)
                else h(a \<mapsto> nd\<lparr>count := (count nd)\<lparr>internal_count := internal_count (count nd) - 1\<rparr>\<rparr>))"
  using assms by (simp add: release_ref_def release_ref_loop_eq Let_def)

lemma free_external_counter_eq:
  assumes "ptr p = Some a" "h a = Some nd"
  shows "free_external_counter p h =
           Inr (let c = \<lparr>internal_count = internal_count (count nd) + (ucast (counted_node_ptr.external_count p) - 2),
                          node_counter.external_count = node_counter.external_count (count nd) - 1\<rparr>
                in if internal_count c = 0 \<and> node_counter.external_count c = 0
                   then h(a := None)
                   else h(a \<mapsto> nd\<lparr>count := c\<rparr>))"
  using assms
  by (simp add: free_external_counter_def deref_def free_external_counter_loop_eq Let_def
        retire_internal ucast_down_diff30)

subsection \<open>One pass through the loops of push and pop\<close>

lemma push_body_ok:
  assumes "ptr (tail s) = Some a" "nodes s a = Some nd" "data nd = None"
  shows "push_body new_data new_next old_tail s =
           (case free_external_counter
                   ((tail s)\<lparr>counted_node_ptr.external_count := counted_node_ptr.external_count (tail s) + 1\<rparr>)
                   ((nodes s)(a \<mapsto> nd\<lparr>data := Some new_data, next := new_next\<rparr>)) of
              Inl f \<Rightarrow> Inl (Fault f)
            | Inr h \<Rightarrow> Inr (Break (s\<lparr>tail := new_next, nodes := h\<rparr>)))"
  unfolding push_body_def increase_external_count_eq
  using assms
  by (simp add: deref_def cas_same split: sum.splits)

lemma push_body_fail:
  assumes "ptr (tail s) = Some a" "nodes s a = Some nd" "data nd \<noteq> None"
  shows "push_body new_data new_next old_tail s =
           (case release_ref a (nodes s) of
              Inl f \<Rightarrow> Inl (Fault f)
            | Inr h \<Rightarrow>
                Inr (Continue
                  ((tail s)\<lparr>counted_node_ptr.external_count := counted_node_ptr.external_count (tail s) + 1\<rparr>,
                   s\<lparr>tail := (tail s)\<lparr>counted_node_ptr.external_count := counted_node_ptr.external_count (tail s) + 1\<rparr>,
                     nodes := h\<rparr>)))"
  unfolding push_body_def increase_external_count_eq
  using assms
  by (simp add: deref_def cas_diff split: sum.splits)

lemma pop_body_empty:
  assumes "ptr (head s) = Some a" "ptr (tail s) = Some a"
  shows "pop_body old_head s =
           (case release_ref a (nodes s) of
              Inl f \<Rightarrow> Inl (Fault f)
            | Inr h \<Rightarrow>
                Inr (Break
                  (s\<lparr>head := (head s)\<lparr>counted_node_ptr.external_count := counted_node_ptr.external_count (head s) + 1\<rparr>,
                     nodes := h\<rparr>, None)))"
  unfolding pop_body_def increase_external_count_eq
  using assms
  by (simp split: sum.splits)

lemma pop_body_nonempty:
  assumes "ptr (head s) = Some a" "ptr (tail s) \<noteq> Some a" "nodes s a = Some nd"
  shows "pop_body old_head s =
           (case free_external_counter
                   ((head s)\<lparr>counted_node_ptr.external_count := counted_node_ptr.external_count (head s) + 1\<rparr>)
                   ((nodes s)(a \<mapsto> nd\<lparr>data := None\<rparr>)) of
              Inl f \<Rightarrow> Inl (Fault f)
            | Inr h \<Rightarrow> Inr (Break (s\<lparr>head := next nd, nodes := h\<rparr>, data nd)))"
  unfolding pop_body_def increase_external_count_eq
  using assms
  by (simp add: deref_def cas_same split: sum.splits)

lemma push_loop_ok:
  assumes "ptr (tail s) = Some a" "nodes s a = Some nd" "data nd = None"
  shows "push_loop new_data new_next old_tail s =
           (case free_external_counter
                   ((tail s)\<lparr>counted_node_ptr.external_count := counted_node_ptr.external_count (tail s) + 1\<rparr>)
                   ((nodes s)(a \<mapsto> nd\<lparr>data := Some new_data, next := new_next\<rparr>)) of
              Inl f \<Rightarrow> Some (Inl (Fault f))
            | Inr h \<Rightarrow> Some (Inr (s\<lparr>tail := new_next, nodes := h\<rparr>)))"
  by (subst push_loop.simps) (simp add: push_body_ok[OF assms] split: sum.splits)

lemma pop_empty:
  assumes "ptr (head s) = Some a" "ptr (tail s) = Some a"
  shows "pop s =
           (case release_ref a (nodes s) of
              Inl f \<Rightarrow> Some (Inl (Fault f))
            | Inr h \<Rightarrow>
                Some (Inr
                  (s\<lparr>head := (head s)\<lparr>counted_node_ptr.external_count := counted_node_ptr.external_count (head s) + 1\<rparr>,
                     nodes := h\<rparr>, None)))"
  unfolding pop_def Let_def
  by (subst pop_loop.simps) (simp add: pop_body_empty[OF assms] split: sum.splits)

lemma pop_nonempty:
  assumes "ptr (head s) = Some a" "ptr (tail s) \<noteq> Some a" "nodes s a = Some nd"
  shows "pop s =
           (case free_external_counter
                   ((head s)\<lparr>counted_node_ptr.external_count := counted_node_ptr.external_count (head s) + 1\<rparr>)
                   ((nodes s)(a \<mapsto> nd\<lparr>data := None\<rparr>)) of
              Inl f \<Rightarrow> Some (Inl (Fault f))
            | Inr h \<Rightarrow> Some (Inr (s\<lparr>head := next nd, nodes := h\<rparr>, data nd)))"
  unfolding pop_def Let_def
  by (subst pop_loop.simps) (simp add: pop_body_nonempty[OF assms] split: sum.splits)

subsection \<open>The chain of nodes\<close>

lemma chain_frame:
  "x \<notin> set as \<Longrightarrow> chain (h(x := y)) ic as ds = chain h ic as ds"
proof (induction as arbitrary: ic ds)
  case Nil
  then show ?case by simp
next
  case (Cons a as)
  then show ?case
    by (cases as; cases ds) (simp_all split: option.splits)
qed

lemma chain_alloc:
  "chain h ic as ds \<Longrightarrow> a \<in> set as \<Longrightarrow> h a \<noteq> None"
proof (induction as arbitrary: ic ds)
  case Nil
  then show ?case by simp
next
  case (Cons b bs)
  show ?case
  proof (cases "a = b")
    case True
    with Cons.prems(1) show ?thesis by (simp split: option.splits)
  next
    case False
    with Cons.prems(2) have in_bs: "a \<in> set bs" by simp
    then obtain c cs where bs: "bs = c # cs" by (cases bs) auto
    from Cons.prems(1) obtain d ds' where "ds = d # ds'" and "chain h 0 bs ds'"
      by (cases ds) (auto simp: bs split: option.splits)
    with Cons.IH in_bs show ?thesis by blast
  qed
qed

lemma chain_last:
  "chain h ic (as @ [a]) ds \<Longrightarrow>
     \<exists>nd. h a = Some nd \<and> data nd = None \<and>
          count nd = \<lparr>internal_count = (if as = [] then ic else 0), node_counter.external_count = 2\<rparr>"
proof (induction as arbitrary: ic ds)
  case Nil
  then show ?case by (simp split: option.splits)
next
  case (Cons x xs)
  obtain c cs where xs: "xs @ [a] = c # cs" by (cases "xs @ [a]") auto
  from Cons.prems obtain d ds' where "ds = d # ds'" and ch: "chain h 0 (xs @ [a]) ds'"
    by (cases ds) (auto simp: xs split: option.splits)
  from Cons.IH[OF ch] show ?case by (auto split: if_splits)
qed

lemma chain_snoc:
  assumes "chain h ic (as @ [a]) ds" "distinct (as @ [a])" "n \<notin> set (as @ [a])" "h a = Some nd"
  shows "chain (h(n \<mapsto> new_node,
                  a \<mapsto> nd\<lparr>data := Some d,
                          next := \<lparr>counted_node_ptr.external_count = 1, ptr = Some n\<rparr>,
                          count := \<lparr>internal_count = internal_count (count nd),
                                    node_counter.external_count = 1\<rparr>\<rparr>))
           ic (as @ [a, n]) (ds @ [d])"
  using assms
proof (induction as arbitrary: ic ds)
  case Nil
  then show ?case by (auto simp: new_node_def split: option.splits)
next
  case (Cons x xs)
  let ?h = "h(n \<mapsto> new_node,
                  a \<mapsto> nd\<lparr>data := Some d,
                          next := \<lparr>counted_node_ptr.external_count = 1, ptr = Some n\<rparr>,
                          count := \<lparr>internal_count = internal_count (count nd),
                                    node_counter.external_count = 1\<rparr>\<rparr>)"
  obtain c cs where xs: "xs @ [a] = c # cs" by (cases "xs @ [a]") auto
  then have xs2: "xs @ [a, n] = c # (cs @ [n])"
    by (metis append.assoc append_Cons append_Nil)
  from Cons.prems(1) obtain ndx d0 ds' where ds: "ds = d0 # ds'" and hx: "h x = Some ndx"
    and ndx: "data ndx = Some d0" "count ndx = \<lparr>internal_count = ic, node_counter.external_count = 1\<rparr>"
      "next ndx = \<lparr>counted_node_ptr.external_count = 1, ptr = Some c\<rparr>"
    and ch: "chain h 0 (xs @ [a]) ds'"
    by (cases ds) (auto simp: xs split: option.splits)
  from Cons.prems have "distinct (xs @ [a])" "n \<notin> set (xs @ [a])" by auto
  from Cons.IH[OF ch this Cons.prems(4)] have ih: "chain ?h 0 (xs @ [a, n]) (ds' @ [d])" .
  from Cons.prems have "x \<noteq> n" "x \<noteq> a" by auto
  then have hx': "?h x = Some ndx" using hx by simp
  show ?case
    using ih hx' ndx by (simp add: ds xs2 del: fun_upd_apply)
qed

subsection \<open>The operations preserve the invariant\<close>

lemma ninv_vals [simp]: "ninv ns0 (s\<lparr>vals := v\<rparr>) as ds = ninv ns0 s as ds"
  by (simp add: ninv_def)

lemma construct_inv:
  assumes "nodes m a = None"
  shows "\<exists>s. lock_free_queue (Some a) m = Inr s \<and> ninv (nodes m) s [a] [] \<and> vinv (vals m) s []
             \<and> vals s = vals m"
  using assms by (simp add: lock_free_queue_def ninv_def vinv_def new_node_def Let_def)

lemma pop_empty_inv:
  assumes "ninv ns0 s [a] []"
  shows "\<exists>s'. pop s = Some (Inr (s', None)) \<and> ninv ns0 s' [a] [] \<and> vals s' = vals s"
proof -
  from assms obtain nd where nd: "nodes s a = Some nd" "data nd = None"
      "count nd = \<lparr>internal_count = 1 - ucast (counted_node_ptr.external_count (head s)),
                  node_counter.external_count = 2\<rparr>"
    and hd: "ptr (head s) = Some a" and tl: "ptr (tail s) = Some a"
    by (auto simp: ninv_def split: option.splits)
  let ?s' = "s\<lparr>head := (head s)\<lparr>counted_node_ptr.external_count := counted_node_ptr.external_count (head s) + 1\<rparr>,
               nodes := (nodes s)(a \<mapsto> nd\<lparr>count := (count nd)\<lparr>internal_count := internal_count (count nd) - 1\<rparr>\<rparr>)\<rparr>"
  have "pop s = Some (Inr (?s', None))"
    by (simp add: pop_empty[OF hd tl] release_ref_eq[where h="nodes s", OF nd(1)] nd(3))
  moreover have "ninv ns0 ?s' [a] []"
    using assms nd by (simp add: ninv_def ucast_down_add30)
  ultimately show ?thesis by auto
qed

lemma retire_head_zero:
  "(1 - ucast (x::32 word) :: 30 word) + (ucast (x + 1) - 2) = 0"
  by (simp add: ucast_down_add30)

lemma pop_nonempty_inv:
  assumes "ninv ns0 s (a # b # as) (d # ds)"
  shows "\<exists>s'. pop s = Some (Inr (s', Some d)) \<and> ninv ns0 s' (b # as) ds \<and> vals s' = vals s"
proof -
  from assms obtain nd where nd: "nodes s a = Some nd" "data nd = Some d"
      "count nd = \<lparr>internal_count = 1 - ucast (counted_node_ptr.external_count (head s)),
                  node_counter.external_count = 1\<rparr>"
      "next nd = \<lparr>counted_node_ptr.external_count = 1, ptr = Some b\<rparr>"
    and ch: "chain (nodes s) 0 (b # as) ds"
    and hd: "ptr (head s) = Some a" and tl: "ptr (tail s) = Some (last (b # as))"
    and dist: "distinct (a # b # as)"
    by (auto simp: ninv_def split: option.splits)
  from dist have ne: "ptr (tail s) \<noteq> Some a"
    unfolding tl by (metis distinct.simps(2) last_in_set list.distinct(1) option.inject)
  let ?s' = "s\<lparr>head := \<lparr>counted_node_ptr.external_count = 1, ptr = Some b\<rparr>,
               nodes := (nodes s)(a := None)\<rparr>"
  have fe: "free_external_counter
          ((head s)\<lparr>counted_node_ptr.external_count := counted_node_ptr.external_count (head s) + 1\<rparr>)
          ((nodes s)(a \<mapsto> nd\<lparr>data := None\<rparr>)) = Inr ((nodes s)(a := None))"
    by (subst free_external_counter_eq[where a=a and nd="nd\<lparr>data := None\<rparr>"])
       (simp_all add: hd nd(3) retire_head_zero)
  have "pop s = Some (Inr (?s', Some d))"
    by (simp add: pop_nonempty[OF hd ne nd(1)] fe nd)
  moreover have "ninv ns0 ?s' (b # as) ds"
    using assms ch dist by (auto simp: ninv_def chain_frame simp del: chain.simps)
  ultimately show ?thesis by auto
qed

lemma push_inv:
  assumes inv: "ninv ns0 s as ds" "vinv vs0 s ds"
    and fresh: "vals s d = None" "nodes s n = None"
  shows "\<exists>s'. push v (Some d) (Some n) s = Some (Inr s') \<and>
              ninv ns0 s' (as @ [n]) (ds @ [d]) \<and> vinv vs0 s' (ds @ [d]) \<and>
              queued s' (ds @ [d]) = queued s ds @ [v]"
proof -
  from inv(1) obtain as' a where as: "as = as' @ [a]"
    by (cases as rule: rev_cases) (auto simp: ninv_def)
  from inv(1) have ch: "chain (nodes s) (1 - ucast (counted_node_ptr.external_count (head s))) (as' @ [a]) ds"
    and dist: "distinct (as' @ [a])"
    and tl: "tail s = \<lparr>counted_node_ptr.external_count = 1, ptr = Some a\<rparr>"
    by (auto simp: ninv_def as)
  from chain_last[OF ch] obtain nd ic where nd: "nodes s a = Some nd" "data nd = None"
      "count nd = \<lparr>internal_count = ic, node_counter.external_count = 2\<rparr>"
    by blast
  have n_notin: "n \<notin> set (as' @ [a])"
    using chain_alloc[OF ch] fresh(2) by blast
  then have na: "n \<noteq> a" "a \<noteq> n" by auto
  have d_notin: "d \<notin> set ds"
    using inv(2) fresh(1) by (auto simp: vinv_def)
  let ?nn = "\<lparr>counted_node_ptr.external_count = 1, ptr = Some n\<rparr>"
  let ?nd' = "nd\<lparr>data := Some d, next := ?nn,
                 count := \<lparr>internal_count = internal_count (count nd), node_counter.external_count = 1\<rparr>\<rparr>"
  let ?h = "(nodes s)(n \<mapsto> new_node, a \<mapsto> ?nd')"
  let ?s2 = "s\<lparr>vals := (vals s)(d \<mapsto> v), nodes := (nodes s)(n \<mapsto> new_node)\<rparr>"
  let ?s' = "s\<lparr>vals := (vals s)(d \<mapsto> v), nodes := ?h, tail := ?nn\<rparr>"
  have fe: "free_external_counter \<lparr>counted_node_ptr.external_count = 2, ptr = Some a\<rparr>
              ((nodes s)(n \<mapsto> new_node, a \<mapsto> nd\<lparr>data := Some d, next := ?nn\<rparr>)) = Inr ?h"
    by (subst free_external_counter_eq[where a=a and nd="nd\<lparr>data := Some d, next := ?nn\<rparr>"])
       (simp_all add: nd(3))
  have pl: "push_loop d ?nn (tail s) ?s2 = Some (Inr ?s')"
    by (subst push_loop_ok[where a=a and nd=nd]) (simp_all add: tl nd na fe)
  have "push v (Some d) (Some n) s = Some (Inr ?s')"
    by (simp add: push_def Let_def pl)
  moreover have "ninv ns0 ?s' (as @ [n]) (ds @ [d])"
  proof -
    have hd_eq: "hd (as' @ [a, n]) = hd (as' @ [a])" by (cases as') auto
    have fr: "\<forall>b. b \<notin> set (as' @ [a, n]) \<longrightarrow> ?h b = ns0 b"
      using inv(1) by (auto simp: ninv_def as)
    have "nodes s n = ns0 n"
      using inv(1) n_notin by (auto simp: ninv_def as)
    then have n0: "ns0 n = None" using fresh(2) by simp
    have al: "\<forall>b\<in>set (as' @ [a, n]). ns0 b = None"
      using inv(1) n0 by (auto simp: ninv_def as)
    have di: "distinct (as' @ [a, n])"
      using dist n_notin by auto
    have hp: "ptr (head s) = Some (hd (as' @ [a, n]))"
      using inv(1) by (simp add: ninv_def as hd_eq)
    show ?thesis
      unfolding ninv_def
      using chain_snoc[OF ch dist n_notin nd(1), of d] fr al di hp
      by (simp add: as del: chain.simps fun_upd_apply)
  qed
  moreover have "vinv vs0 ?s' (ds @ [d])"
    using inv(2) d_notin fresh(1) by (auto simp: vinv_def)
  moreover have "queued ?s' (ds @ [d]) = queued s ds @ [v]"
    using d_notin by (auto simp: queued_def)
  ultimately show ?thesis by blast
qed

subsection \<open>Sequences of operations\<close>

lemma ninv_shape:
  assumes "ninv ns0 s as ds"
  shows "(ds = [] \<and> (\<exists>a. as = [a])) \<or> (\<exists>a b bs d ds'. as = a # b # bs \<and> ds = d # ds')"
proof -
  from assms obtain ic where ch: "chain (nodes s) ic as ds" and ne: "as \<noteq> []"
    by (auto simp: ninv_def)
  from ne obtain a as' where as: "as = a # as'" by (cases as) auto
  show ?thesis
  proof (cases as')
    case Nil
    with ch as show ?thesis by (auto split: option.splits)
  next
    case (Cons b bs)
    with ch as show ?thesis by (cases ds) (auto split: option.splits)
  qed
qed

lemma step_push_inv:
  assumes "ninv ns0 s as ds" "vinv vs0 s ds" "vals s d = None" "nodes s n = None"
  shows "\<exists>s'. step (Push v d n) s = Some (Inr (s', [])) \<and>
              ninv ns0 s' (as @ [n]) (ds @ [d]) \<and> vinv vs0 s' (ds @ [d]) \<and>
              queued s' (ds @ [d]) = queued s ds @ [v]"
  using push_inv[OF assms, of v] by (auto simp: step_def)

lemma step_pop_empty_inv:
  assumes "ninv ns0 s [a] []" "vinv vs0 s []"
  shows "\<exists>s'. step Pop s = Some (Inr (s', [None])) \<and> ninv ns0 s' [a] [] \<and> vinv vs0 s' []"
  using pop_empty_inv[OF assms(1)] assms(2)
  by (auto simp: step_def deref_opt_def unique_ptr_dtor_def vinv_def)

lemma step_pop_nonempty_inv:
  assumes "ninv ns0 s (a # b # as) (d # ds)" "vinv vs0 s (d # ds)"
  shows "\<exists>s'. step Pop s = Some (Inr (s', [Some (the (vals s d))])) \<and>
              ninv ns0 s' (b # as) ds \<and> vinv vs0 s' ds \<and> queued s' ds = queued s ds"
proof -
  from pop_nonempty_inv[OF assms(1)] obtain s1 where
    s1: "pop s = Some (Inr (s1, Some d))" "ninv ns0 s1 (b # as) ds" "vals s1 = vals s"
    by blast
  from assms(2) obtain x where x: "vals s d = Some x" by (auto simp: vinv_def)
  let ?s' = "s1\<lparr>vals := (vals s1)(d := None)\<rparr>"
  have "step Pop s = Some (Inr (?s', [Some (the (vals s d))]))"
    by (simp add: step_def s1 x deref_opt_def unique_ptr_dtor_def)
  moreover have "ninv ns0 ?s' (b # as) ds" using s1(2) by simp
  moreover have "vinv vs0 ?s' ds" using assms(2) s1(3) by (auto simp: vinv_def)
  moreover have "queued ?s' ds = queued s ds"
    using assms(2) s1(3) by (auto simp: queued_def vinv_def)
  ultimately show ?thesis by blast
qed

lemma run_inv:
  assumes "ninv ns0 s as ds" "vinv vs0 s ds" "allocs_fresh s cs"
  shows "\<exists>s' outs as' ds'. run s cs = Some (Inr (s', outs)) \<and>
           ninv ns0 s' as' ds' \<and> vinv vs0 s' ds' \<and>
           somes outs @ queued s' ds' = queued s ds @ pushed cs"
  using assms
proof (induction cs arbitrary: s as ds)
  case Nil
  then show ?case by auto
next
  case (Cons c cs)
  show ?case
  proof (cases c)
    case (Push v d n)
    with Cons.prems(3) have fr: "vals s d = None" "nodes s n = None" by auto
    from step_push_inv[OF Cons.prems(1,2) fr, of v] obtain s1 where
      s1: "step (Push v d n) s = Some (Inr (s1, []))" "ninv ns0 s1 (as @ [n]) (ds @ [d])"
          "vinv vs0 s1 (ds @ [d])" "queued s1 (ds @ [d]) = queued s ds @ [v]"
      by blast
    from Cons.prems(3) s1(1) Push have "allocs_fresh s1 cs" by simp
    from Cons.IH[OF s1(2,3) this] obtain s' outs as' ds' where
      r: "run s1 cs = Some (Inr (s', outs))" "ninv ns0 s' as' ds'" "vinv vs0 s' ds'"
         "somes outs @ queued s' ds' = queued s1 (ds @ [d]) @ pushed cs"
      by blast
    have "run s (c # cs) = Some (Inr (s', outs))"
      by (simp add: Push s1(1) r(1))
    moreover have "somes outs @ queued s' ds' = queued s ds @ pushed (c # cs)"
      by (simp add: r(4) s1(4) Push)
    ultimately show ?thesis using r(2,3) by blast
  next
    case Pop
    from ninv_shape[OF Cons.prems(1)] show ?thesis
    proof (elim disjE conjE exE)
      fix a assume e: "ds = []" "as = [a]"
      from step_pop_empty_inv[of ns0 s a vs0] Cons.prems(1,2) e obtain s1 where
        s1: "step Pop s = Some (Inr (s1, [None]))" "ninv ns0 s1 [a] []" "vinv vs0 s1 []"
        by blast
      from Cons.prems(3) s1(1) Pop have "allocs_fresh s1 cs" by simp
      from Cons.IH[OF s1(2,3) this] obtain s' outs as' ds' where
        r: "run s1 cs = Some (Inr (s', outs))" "ninv ns0 s' as' ds'" "vinv vs0 s' ds'"
           "somes outs @ queued s' ds' = queued s1 [] @ pushed cs"
        by blast
      have "run s (c # cs) = Some (Inr (s', None # outs))"
        by (simp add: Pop s1(1) r(1))
      moreover have "somes (None # outs) @ queued s' ds' = queued s ds @ pushed (c # cs)"
        using r(4) by (simp add: Pop e queued_def)
      ultimately show ?thesis using r(2,3) by blast
    next
      fix a b bs d ds' assume e: "as = a # b # bs" "ds = d # ds'"
      from step_pop_nonempty_inv[of ns0 s a b bs d ds' vs0] Cons.prems(1,2) e obtain s1 where
        s1: "step Pop s = Some (Inr (s1, [Some (the (vals s d))]))" "ninv ns0 s1 (b # bs) ds'"
            "vinv vs0 s1 ds'" "queued s1 ds' = queued s ds'"
        by blast
      from Cons.prems(3) s1(1) Pop have "allocs_fresh s1 cs" by simp
      from Cons.IH[OF s1(2,3) this] obtain s' outs as' ds'' where
        r: "run s1 cs = Some (Inr (s', outs))" "ninv ns0 s' as' ds''" "vinv vs0 s' ds''"
           "somes outs @ queued s' ds'' = queued s1 ds' @ pushed cs"
        by blast
      have "run s (c # cs) = Some (Inr (s', Some (the (vals s d)) # outs))"
        by (simp add: Pop s1(1) r(1))
      moreover have "somes (Some (the (vals s d)) # outs) @ queued s' ds'' = queued s ds @ pushed (c # cs)"
        using r(4) s1(4) by (simp add: Pop e queued_def)
      ultimately show ?thesis using r(2,3) by blast
    qed
  qed
qed

lemma ninv_tail_dummy:
  assumes "ninv ns0 s as ds"
  shows "\<exists>t nd. ptr (tail s) = Some t \<and> nodes s t = Some nd \<and> data nd = None"
proof -
  from assms obtain as' a where as: "as = as' @ [a]"
    by (cases as rule: rev_cases) (auto simp: ninv_def)
  from assms have ch: "chain (nodes s) (1 - ucast (counted_node_ptr.external_count (head s))) (as' @ [a]) ds"
    and tl: "ptr (tail s) = Some a"
    by (auto simp: ninv_def as)
  from chain_last[OF ch] tl show ?thesis by blast
qed

lemma drain_run:
  assumes "ninv ns0 s as ds" "vinv vs0 s ds"
  shows "\<exists>s'. run s (replicate (length ds) Pop) = Some (Inr (s', map Some (queued s ds))) \<and>
              ninv ns0 s' [last as] [] \<and> vinv vs0 s' []"
  using assms
proof (induction ds arbitrary: s as)
  case Nil
  with ninv_shape[OF Nil(1)] show ?case by (auto simp: queued_def)
next
  case (Cons d ds)
  from ninv_shape[OF Cons.prems(1)] obtain a b bs where as: "as = a # b # bs" by auto
  from step_pop_nonempty_inv[of ns0 s a b bs d ds vs0] Cons.prems as obtain s1 where
    s1: "step Pop s = Some (Inr (s1, [Some (the (vals s d))]))" "ninv ns0 s1 (b # bs) ds"
        "vinv vs0 s1 ds" "queued s1 ds = queued s ds"
    by blast
  from Cons.IH[OF s1(2,3)] obtain s' where
    r: "run s1 (replicate (length ds) Pop) = Some (Inr (s', map Some (queued s1 ds)))"
       "ninv ns0 s' [last (b # bs)] []" "vinv vs0 s' []"
    by blast
  have "run s (replicate (length (d # ds)) Pop) = Some (Inr (s', map Some (queued s (d # ds))))"
    using s1(1,4) r(1) by (simp add: queued_def)
  then show ?case using r(2,3) by (auto simp: as)
qed

lemma dtor_loop_run:
  fixes s :: "'a state"
  assumes "run s (replicate k Pop) = Some (Inr (s1, outs))" "None \<notin> set outs"
    and "pop s1 = Some (Inr (s2, None))"
  shows "dtor_loop s = Some (Inr s2)"
  using assms
proof (induction k arbitrary: s outs)
  case 0
  then show ?case
    by (subst dtor_loop.simps) (simp add: unique_ptr_dtor_def)
next
  case (Suc k)
  from Suc.prems(1) obtain sa out outs' where
    st: "step Pop s = Some (Inr (sa, out))" and r: "run sa (replicate k Pop) = Some (Inr (s1, outs'))"
    and o: "outs = out @ outs'"
    by (auto split: option.splits sum.splits)
  from st have "\<exists>sp res x. pop s = Some (Inr (sp, res)) \<and> unique_ptr_dtor res sp = Inr sa \<and>
      deref_opt (vals sp) res = Inr x \<and> out = [x]"
    by (auto simp: step_def split: option.splits sum.splits)
  then obtain sp res x where p: "pop s = Some (Inr (sp, res))"
    and u: "unique_ptr_dtor res sp = Inr sa"
    and d: "deref_opt (vals sp) res = Inr x" "out = [x]"
    by blast
  from Suc.prems(2) o d have "x \<noteq> None" by (cases x) auto
  with d(1) have "res \<noteq> None" by (auto simp: deref_opt_def split: option.splits)
  moreover from Suc.prems(2) o have "None \<notin> set outs'" by simp
  from Suc.IH[OF r this Suc.prems(3)] have "dtor_loop sa = Some (Inr s2)" .
  ultimately show ?case
    by (subst dtor_loop.simps) (simp add: p u)
qed

subsection \<open>The counter fields as integers\<close>

lemma uint_dec30: "uint ((w::30 word) - 1) = (uint w - 1) mod 2 ^ 30"
  by (simp add: uint_word_ariths)

lemma uint_dec2: "uint ((w::2 word) - 1) = (uint w - 1) mod 4"
  by (simp add: uint_word_ariths)

lemma wi30_sint32: "(word_of_int (sint (x::32 word)) :: 30 word) = ucast x"
proof -
  have "(word_of_int (sint x) :: 30 word) = scast x" by (simp only: scast_eq)
  also have "\<dots> = ucast x" by (simp add: down_cast_same[symmetric] is_down)
  finally show ?thesis .
qed

lemma retire_wi: "(a::30 word) + (ucast (x::32 word) - 2) = word_of_int (uint a + (sint x - 2))"
proof -
  have "(word_of_int (uint a + (sint x - 2)) :: 30 word)
          = word_of_int (uint a) + (word_of_int (sint x) - word_of_int 2)"
    by (simp only: wi_hom_add wi_hom_sub)
  also have "\<dots> = a + (ucast x - 2)"
    by (simp only: wi30_sint32 word_of_int_uint) simp
  finally show ?thesis by simp
qed

lemma retire_uint:
  "uint ((a::30 word) + (ucast (x::32 word) - 2)) = (uint a + (sint x - 2)) mod 2 ^ 30"
  by (simp only: retire_wi uint_word_of_int) simp

lemma uint_dec2_nowrap:
  assumes "(w::2 word) \<noteq> 0"
  shows "uint (w - 1) = uint w - 1"
proof -
  from assms have "uint w \<noteq> 0" by (simp add: uint_0_iff)
  moreover have "0 \<le> uint w" by (rule uint_ge_0)
  moreover have "uint w < 4" using uint_bounded[of w] by simp
  ultimately have "0 \<le> uint w - 1" "uint w - 1 < 4" by linarith+
  then have "(uint w - 1) mod 4 = uint w - 1" by (rule mod_pos_pos_trivial)
  then show ?thesis by (simp only: uint_dec2)
qed

lemma scast_down30: "(scast (x::32 word) :: 30 word) = ucast x"
  by (simp add: down_cast_same[symmetric] is_down)

lemma uint_minus1_30: "uint ((0::30 word) - 1) = 2 ^ 30 - 1"
proof -
  have "uint ((0::30 word) - 1) = (uint (0::30 word) - 1) mod 2 ^ 30" by (rule uint_dec30)
  also have "\<dots> = 2 ^ 30 - 1" by simp
  finally show ?thesis .
qed

lemma minus1_30_neq0: "(0::30 word) - 1 \<noteq> 0"
proof
  assume "(0::30 word) - 1 = 0"
  then have "uint ((0::30 word) - 1) = uint (0::30 word)" by (rule arg_cong)
  then show False by (simp only: uint_minus1_30) simp
qed

lemma word30_max: "(1073741823::30 word) = - 1"
  by simp

lemma somes_map_Some [simp]: "somes (map Some xs) = xs"
  by (induction xs) auto

subsection \<open>The concrete states\<close>

lemma construct_empty_memory: "lock_free_queue (Some 0) empty_memory = Inr fresh_queue"
  by (simp add: lock_free_queue_def Let_def empty_memory_def fresh_queue_def)

lemma fresh_ops: "allocs_fresh fresh_queue demo_ops"
  by code_simp

subsection \<open>A push preempted between its claim and its data CAS\<close>

lemma push_body_split:
  "push_body new_data new_next old_tail s =
     (case push_claim old_tail s of
        (old_tail', s') \<Rightarrow> push_install new_data new_next old_tail' s')"
  by (simp add: push_body_def push_claim_def push_install_def Let_def split: prod.splits)

lemma push_enters_loop:
  "push v (Some d) (Some n) s =
     (let s = s\<lparr>vals := (vals s)(d \<mapsto> v)\<rparr>;
          s = s\<lparr>nodes := (nodes s)(n \<mapsto> new_node)\<rparr>
      in case push_claim (tail s) s of
           (old_tail, s') \<Rightarrow>
             (case push_install d \<lparr>counted_node_ptr.external_count = 1, ptr = Some n\<rparr> old_tail s' of
                Inl e \<Rightarrow> Some (Inl e)
              | Inr (Break s'') \<Rightarrow> Some (Inr s'')
              | Inr (Continue (old_tail', s'')) \<Rightarrow>
                  push_loop d \<lparr>counted_node_ptr.external_count = 1, ptr = Some n\<rparr> old_tail' s''))"
  by (simp add: push_def Let_def push_loop.simps[of d _ "tail s"] push_body_split split: prod.splits)

lemma lost_push_eval:
  "(case second_producer_claimed of
      (old_tail, q2) \<Rightarrow>
        (case push 10 (Some 0) (Some 1) q2 of
           Some (Inr q3) \<Rightarrow>
             (case step Pop q3 of
                Some (Inr (q4, out1)) \<Rightarrow>
                  out1 = [Some 10] \<and>
                  (case push_install 1 \<lparr>counted_node_ptr.external_count = 1, ptr = Some 2\<rparr> old_tail q4 of
                     Inr (Break q5) \<Rightarrow>
                       (case step Pop q5 of
                          Some (Inr (q6, out2)) \<Rightarrow>
                            out2 = [None] \<and>
                            (case step Pop q6 of
                               Some (Inl (Fault f)) \<Rightarrow> f = Null_deref
                             | _ \<Rightarrow> False)
                        | _ \<Rightarrow> False)
                   | _ \<Rightarrow> False)
              | _ \<Rightarrow> False)
         | _ \<Rightarrow> False))"
  by code_simp

lemma second_producer_is_push:
  "push 20 (Some 1) (Some 2) fresh_queue =
     (case second_producer_claimed of
        (old_tail, s) \<Rightarrow>
          (case push_install 1 \<lparr>counted_node_ptr.external_count = 1, ptr = Some 2\<rparr> old_tail s of
             Inl e \<Rightarrow> Some (Inl e)
           | Inr (Break s') \<Rightarrow> Some (Inr s')
           | Inr (Continue (old_tail', s')) \<Rightarrow>
               push_loop 1 \<lparr>counted_node_ptr.external_count = 1, ptr = Some 2\<rparr> old_tail' s'))"
  by (simp only: push_enters_loop second_producer_claimed_def Let_def)

lemma sequential_order_10_20:
  "outputs (run fresh_queue [Push 10 0 1, Push 20 1 2, Pop, Pop]) = Some [Some 10, Some 20]"
  by code_simp

lemma sequential_order_10_pop_20:
  "outputs (run fresh_queue [Push 10 0 1, Pop, Push 20 1 2, Pop]) = Some [Some 10, Some 20]"
  by code_simp

lemma sequential_order_20_10:
  "outputs (run fresh_queue [Push 20 1 2, Push 10 0 1, Pop, Pop]) = Some [Some 20, Some 10]"
  by code_simp

lemma returnedD:
  "(case x of Some (Inr v) \<Rightarrow> P v | _ \<Rightarrow> False) \<Longrightarrow> \<exists>v. x = Some (Inr v) \<and> P v"
  by (auto split: option.splits sum.splits)

lemma left_loopD:
  "(case x of Inr (Break v) \<Rightarrow> P v | _ \<Rightarrow> False) \<Longrightarrow> \<exists>v. x = Inr (Break v) \<and> P v"
  by (auto split: sum.splits loop_step.splits)

lemma faultedD:
  "(case x of Some (Inl (Fault f)) \<Rightarrow> P f | _ \<Rightarrow> False) \<Longrightarrow> \<exists>f. x = Some (Inl (Fault f)) \<and> P f"
  by (auto split: option.splits sum.splits error.splits)

section \<open>The claims\<close>

text \<open>
  Claim C1. Run any finite sequence of completed \<open>push\<close> and \<open>pop\<close> operations on a fresh
  queue, one operation at a time (the allocator handing out unused addresses). No operation
  faults or loops, the values returned by the non-empty pops are, in order, a prefix of the
  pushed values, and popping as many times again as values are still queued returns exactly
  the remaining pushed values in push order: the non-empty pop results are the pushed
  sequence.
\<close>

theorem sequential_fifo:
  assumes "nodes m a = None" and "lock_free_queue (Some a) m = Inr s0" and "allocs_fresh s0 cs"
  shows "\<exists>s outs.
           run s0 cs = Some (Inr (s, outs)) \<and>
           take (length (somes outs)) (pushed cs) = somes outs \<and>
           (\<exists>s' outs'.
              run s (replicate (length (pushed cs) - length (somes outs)) Pop) = Some (Inr (s', outs')) \<and>
              somes outs @ somes outs' = pushed cs)"
proof -
  from construct_inv[OF assms(1)] assms(2)
  have i0: "ninv (nodes m) s0 [a] []" "vinv (vals m) s0 []" by auto
  from run_inv[OF i0 assms(3)] obtain s outs as ds where
    r: "run s0 cs = Some (Inr (s, outs))" "ninv (nodes m) s as ds" "vinv (vals m) s ds"
       "somes outs @ queued s ds = queued s0 [] @ pushed cs"
    by blast
  from r(4) have eq: "somes outs @ queued s ds = pushed cs" by (simp add: queued_def)
  then have pre: "take (length (somes outs)) (pushed cs) = somes outs"
    by (metis append_eq_conv_conj)
  from eq have "length (somes outs) + length (queued s ds) = length (pushed cs)"
    by (metis length_append)
  then have len: "length (pushed cs) - length (somes outs) = length ds"
    by (simp add: queued_def)
  from drain_run[OF r(2,3)] obtain s' where
    d: "run s (replicate (length ds) Pop) = Some (Inr (s', map Some (queued s ds)))"
    by blast
  have "run s (replicate (length (pushed cs) - length (somes outs)) Pop)
          = Some (Inr (s', map Some (queued s ds))) \<and>
        somes outs @ somes (map Some (queued s ds)) = pushed cs"
    using d eq by (simp add: len)
  with r(1) pre show ?thesis by blast
qed

theorem sequential_fifo_witness:
  "\<exists>s outs.
     run fresh_queue demo_ops = Some (Inr (s, outs)) \<and>
     take (length (somes outs)) (pushed demo_ops) = somes outs \<and>
     (\<exists>s' outs'.
        run s (replicate (length (pushed demo_ops) - length (somes outs)) Pop) = Some (Inr (s', outs')) \<and>
        somes outs @ somes outs' = pushed demo_ops)"
proof -
  have h1: "nodes empty_memory 0 = None" by (simp add: empty_memory_def)
  show ?thesis
    using sequential_fifo[OF h1 construct_empty_memory fresh_ops] .
qed

text \<open>
  Claim C2. Retiring a head or tail slot through \<open>free_external_counter\<close> adds the slot's
  \<open>external_count - 2\<close> to the node's \<open>internal_count\<close> (in the arithmetic of the 30-bit
  field), decrements the node's 2-bit holder count by one, and frees the node exactly when
  both resulting fields are zero. When the holder count is non-zero the decrement does not
  wrap.
\<close>

theorem free_external_counter_retires_slot:
  assumes "ptr p = Some a" and "h a = Some nd"
  shows "\<exists>ic' ec'.
           ic' = internal_count (count nd) + word_of_int (sint (counted_node_ptr.external_count p) - 2) \<and>
           ec' = node_counter.external_count (count nd) - 1 \<and>
           free_external_counter p h =
             Inr (if ic' = 0 \<and> ec' = 0
                  then h(a := None)
                  else h(a \<mapsto> nd\<lparr>count := \<lparr>internal_count = ic', node_counter.external_count = ec'\<rparr>\<rparr>)) \<and>
           (node_counter.external_count (count nd) \<noteq> 0 \<longrightarrow>
              uint ec' = uint (node_counter.external_count (count nd)) - 1)"
proof -
  show ?thesis
    using free_external_counter_eq[where p=p and a=a and h=h and nd=nd] assms
    by (simp add: scast_down30 Let_def uint_dec2_nowrap)
qed

theorem free_external_counter_retires_slot_witness:
  "free_external_counter \<lparr>counted_node_ptr.external_count = 2, ptr = Some 0\<rparr>
      (Map.empty(0 \<mapsto> new_node\<lparr>count := \<lparr>internal_count = 0, node_counter.external_count = 1\<rparr>\<rparr>))
     = Inr Map.empty"
  using free_external_counter_retires_slot
          [of "\<lparr>counted_node_ptr.external_count = 2, ptr = Some 0\<rparr>" 0
              "Map.empty(0 \<mapsto> new_node\<lparr>count := \<lparr>internal_count = 0, node_counter.external_count = 1\<rparr>\<rparr>)"
              "new_node\<lparr>count := \<lparr>internal_count = 0, node_counter.external_count = 1\<rparr>\<rparr>"]
  by simp

text \<open>
  Claim C3, as stated, fails: when the data-install CAS of \<open>push\<close> fails, \<open>release_ref\<close>
  decrements the internal count, but an internal count of zero alone does not free the node.
  In \<open>contended_tail\<close> (a consumer has polled the empty queue \<open>2 ^ 30 - 1\<close> times, so the
  internal count of the dummy has wrapped round to \<open>1\<close>; one producer has installed its
  data and not yet swung \<open>tail\<close>) a second producer's attempt brings the internal count to
  \<open>0\<close> and the node stays allocated, because \<open>head\<close> and \<open>tail\<close> still hold it.
\<close>

theorem push_failed_claim_keeps_node_counterexample:
  "push_body 6 \<lparr>counted_node_ptr.external_count = 1, ptr = Some 2\<rparr> (tail contended_tail) contended_tail =
     Inr (Continue
       (\<lparr>counted_node_ptr.external_count = 3, ptr = Some 0\<rparr>,
        contended_tail
          \<lparr>tail := \<lparr>counted_node_ptr.external_count = 3, ptr = Some 0\<rparr>,
           nodes := (nodes contended_tail)
             (0 \<mapsto> \<lparr>data = Some 5,
                      count = \<lparr>internal_count = 0, node_counter.external_count = 2\<rparr>,
                      next = \<lparr>counted_node_ptr.external_count = 0, ptr = None\<rparr>\<rparr>)\<rparr>))"
  by (simp add: push_body_fail[where a=0 and nd="\<lparr>data = Some 5,
                 count = \<lparr>internal_count = 1, node_counter.external_count = 2\<rparr>,
                 next = \<lparr>counted_node_ptr.external_count = 0, ptr = None\<rparr>\<rparr>"]
        release_ref_eq[where nd="\<lparr>data = Some 5,
                 count = \<lparr>internal_count = 1, node_counter.external_count = 2\<rparr>,
                 next = \<lparr>counted_node_ptr.external_count = 0, ptr = None\<rparr>\<rparr>"]
        contended_tail_def)

text \<open>
  Claim C3, amended. A push iteration whose data-install CAS fails claims the tail (one more
  external count on the slot), decrements the claimed node's internal count modulo
  \<open>2 ^ 30\<close>, frees the node exactly when the resulting internal count and the node's
  holder count are both zero, and retries with the refreshed slot value.
\<close>

theorem push_failed_claim_release:
  assumes "ptr (tail s) = Some a" and "nodes s a = Some nd" and "data nd \<noteq> None"
  shows "push_body new_data new_next old_tail s =
           Inr (Continue
             ((tail s)\<lparr>counted_node_ptr.external_count := counted_node_ptr.external_count (tail s) + 1\<rparr>,
              s\<lparr>tail := (tail s)\<lparr>counted_node_ptr.external_count :=
                                      counted_node_ptr.external_count (tail s) + 1\<rparr>,
                nodes :=
                  (if internal_count (count nd) - 1 = 0 \<and> node_counter.external_count (count nd) = 0
                   then (nodes s)(a := None)
                   else (nodes s)(a \<mapsto> nd\<lparr>count := (count nd)\<lparr>internal_count :=
                                                             internal_count (count nd) - 1\<rparr>\<rparr>))\<rparr>))"
  using release_ref_eq[where h="nodes s" and a=a and nd=nd] assms(2)
  by (simp add: push_body_fail[OF assms])

theorem push_failed_claim_release_witness:
  "ptr (tail contended_tail) = Some 0 \<and>
   push_body 6 \<lparr>counted_node_ptr.external_count = 1, ptr = Some 2\<rparr> (tail contended_tail) contended_tail =
     Inr (Continue
       (\<lparr>counted_node_ptr.external_count = 3, ptr = Some 0\<rparr>,
        contended_tail
          \<lparr>tail := \<lparr>counted_node_ptr.external_count = 3, ptr = Some 0\<rparr>,
           nodes := (nodes contended_tail)
             (0 \<mapsto> \<lparr>data = Some 5,
                      count = \<lparr>internal_count = 0, node_counter.external_count = 2\<rparr>,
                      next = \<lparr>counted_node_ptr.external_count = 0, ptr = None\<rparr>\<rparr>)\<rparr>))"
  using push_failed_claim_release
          [of contended_tail 0
              "\<lparr>data = Some 5,
                 count = \<lparr>internal_count = 1, node_counter.external_count = 2\<rparr>,
                 next = \<lparr>counted_node_ptr.external_count = 0, ptr = None\<rparr>\<rparr>"
              6 "\<lparr>counted_node_ptr.external_count = 1, ptr = Some 2\<rparr>" "tail contended_tail"]
  by (simp add: contended_tail_def)

text \<open>
  Claim C4. In every state reached from a fresh queue by a sequence of completed \<open>push\<close> and
  \<open>pop\<close> operations (the allocator handing out unused addresses), \<open>tail\<close> names a live
  node whose \<open>data\<close> is null.
\<close>

theorem tail_names_dummy:
  assumes "nodes m a = None" and "lock_free_queue (Some a) m = Inr s0" and "allocs_fresh s0 cs"
  shows "\<exists>s outs t nd.
           run s0 cs = Some (Inr (s, outs)) \<and>
           ptr (tail s) = Some t \<and> nodes s t = Some nd \<and> data nd = None"
proof -
  from construct_inv[OF assms(1)] assms(2)
  have i0: "ninv (nodes m) s0 [a] []" "vinv (vals m) s0 []" by auto
  from run_inv[OF i0 assms(3)] obtain s outs as ds where
    r: "run s0 cs = Some (Inr (s, outs))" "ninv (nodes m) s as ds"
    by blast
  from ninv_tail_dummy[OF r(2)] r(1) show ?thesis by blast
qed

theorem tail_names_dummy_witness:
  "\<exists>s outs t nd.
     run fresh_queue demo_ops = Some (Inr (s, outs)) \<and>
     ptr (tail s) = Some t \<and> nodes s t = Some nd \<and> data nd = None"
proof -
  have h1: "nodes empty_memory 0 = None" by (simp add: empty_memory_def)
  show ?thesis
    using tail_names_dummy[OF h1 construct_empty_memory fresh_ops] .
qed

text \<open>
  Claim C5. On a fresh queue, after one \<open>push v\<close> (with fresh addresses from the allocator)
  the first \<open>pop\<close> returns the pointer to the heap copy of \<open>v\<close> and the second \<open>pop\<close>
  returns empty.
\<close>

theorem one_element_queue:
  assumes "nodes m a = None" and "lock_free_queue (Some a) m = Inr s0"
    and "vals s0 d = None" and "nodes s0 n = None"
  shows "\<exists>s1 s2 s3.
           push v (Some d) (Some n) s0 = Some (Inr s1) \<and>
           pop s1 = Some (Inr (s2, Some d)) \<and> vals s2 d = Some v \<and>
           pop s2 = Some (Inr (s3, None))"
proof -
  from construct_inv[OF assms(1)] assms(2)
  have i0: "ninv (nodes m) s0 [a] []" "vinv (vals m) s0 []" by auto
  from push_inv[OF i0 assms(3,4), of v] obtain s1 where
    s1: "push v (Some d) (Some n) s0 = Some (Inr s1)" "ninv (nodes m) s1 ([a] @ [n]) ([] @ [d])"
        "vinv (vals m) s1 ([] @ [d])" "queued s1 ([] @ [d]) = queued s0 [] @ [v]"
    by blast
  from s1(3,4) have v1: "vals s1 d = Some v" by (auto simp: vinv_def queued_def)
  from s1(2) have "ninv (nodes m) s1 (a # n # []) (d # [])" by simp
  from pop_nonempty_inv[OF this] obtain s2 where
    s2: "pop s1 = Some (Inr (s2, Some d))" "ninv (nodes m) s2 [n] []" "vals s2 = vals s1"
    by blast
  from pop_empty_inv[OF s2(2)] obtain s3 where "pop s2 = Some (Inr (s3, None))" by blast
  with s1(1) s2(1,3) v1 show ?thesis by auto
qed

theorem one_element_queue_witness:
  "\<exists>s1 s2 s3.
     push 7 (Some 0) (Some 1) fresh_queue = Some (Inr s1) \<and>
     pop s1 = Some (Inr (s2, Some 0)) \<and> vals s2 0 = Some 7 \<and>
     pop s2 = Some (Inr (s3, None))"
proof -
  have h1: "nodes empty_memory 0 = None" by (simp add: empty_memory_def)
  have h3: "vals fresh_queue 0 = None" by (simp add: fresh_queue_def)
  have h4: "nodes fresh_queue 1 = None" by (simp add: fresh_queue_def)
  show ?thesis
    using one_element_queue[OF h1 construct_empty_memory h3 h4, of 7] .
qed

text \<open>
  Claim C6. \<open>pop\<close> on a freshly constructed queue returns the empty result (a null
  pointer). More generally, whenever \<open>head\<close> and \<open>tail\<close> name the same live node that a slot
  still holds, \<open>pop\<close> returns empty and changes nothing but the two claim counters: the
  external count in \<open>head\<close> goes up by one and the node's internal count down by one.
\<close>

theorem pop_observes_empty:
  "(\<exists>s0. lock_free_queue (Some a) m = Inr s0 \<and>
         pop s0 =
           Some (Inr (s0\<lparr>head := \<lparr>counted_node_ptr.external_count = 2, ptr = Some a\<rparr>,
                        nodes := (nodes s0)
                          (a \<mapsto> new_node\<lparr>count := \<lparr>internal_count = 1073741823,
                                                     node_counter.external_count = 2\<rparr>\<rparr>)\<rparr>,
                      None))) \<and>
   (ptr (head s) = Some b \<and> ptr (tail s) = Some b \<and> nodes s b = Some nd \<and>
    node_counter.external_count (count nd) \<noteq> 0 \<longrightarrow>
      pop s =
        Some (Inr (s\<lparr>head := (head s)\<lparr>counted_node_ptr.external_count :=
                                           counted_node_ptr.external_count (head s) + 1\<rparr>,
                     nodes := (nodes s)
                       (b \<mapsto> nd\<lparr>count := (count nd)\<lparr>internal_count :=
                                                      internal_count (count nd) - 1\<rparr>\<rparr>)\<rparr>,
                   None)))"
proof (intro conjI impI)
  let ?s0 = "m\<lparr>nodes := (nodes m)(a \<mapsto> new_node),
               head := \<lparr>counted_node_ptr.external_count = 1, ptr = Some a\<rparr>,
               tail := \<lparr>counted_node_ptr.external_count = 1, ptr = Some a\<rparr>\<rparr>"
  have c: "lock_free_queue (Some a) m = Inr ?s0"
    by (simp add: lock_free_queue_def Let_def)
  have "pop ?s0 =
           Some (Inr (?s0\<lparr>head := \<lparr>counted_node_ptr.external_count = 2, ptr = Some a\<rparr>,
                        nodes := (nodes ?s0)
                          (a \<mapsto> new_node\<lparr>count := \<lparr>internal_count = 1073741823,
                                                     node_counter.external_count = 2\<rparr>\<rparr>)\<rparr>,
                      None))"
    using release_ref_eq[where h="nodes ?s0" and a=a and nd=new_node]
    by (simp add: pop_empty[where a=a] new_node_def word30_max)
  with c show "\<exists>s0. lock_free_queue (Some a) m = Inr s0 \<and>
         pop s0 =
           Some (Inr (s0\<lparr>head := \<lparr>counted_node_ptr.external_count = 2, ptr = Some a\<rparr>,
                        nodes := (nodes s0)
                          (a \<mapsto> new_node\<lparr>count := \<lparr>internal_count = 1073741823,
                                                     node_counter.external_count = 2\<rparr>\<rparr>)\<rparr>,
                      None))"
    by blast
next
  assume h: "ptr (head s) = Some b \<and> ptr (tail s) = Some b \<and> nodes s b = Some nd \<and>
    node_counter.external_count (count nd) \<noteq> 0"
  then show "pop s =
        Some (Inr (s\<lparr>head := (head s)\<lparr>counted_node_ptr.external_count :=
                                           counted_node_ptr.external_count (head s) + 1\<rparr>,
                     nodes := (nodes s)
                       (b \<mapsto> nd\<lparr>count := (count nd)\<lparr>internal_count :=
                                                      internal_count (count nd) - 1\<rparr>\<rparr>)\<rparr>,
                   None))"
    using release_ref_eq[where h="nodes s" and a=b and nd=nd]
    by (simp add: pop_empty[where a=b])
qed

theorem pop_observes_empty_witness:
  "lock_free_queue (Some 0) empty_memory = Inr fresh_queue \<and>
   pop fresh_queue =
     Some (Inr (fresh_queue\<lparr>head := \<lparr>counted_node_ptr.external_count = 2, ptr = Some 0\<rparr>,
                  nodes := (nodes fresh_queue)
                    (0 \<mapsto> new_node\<lparr>count := \<lparr>internal_count = 1073741823,
                                               node_counter.external_count = 2\<rparr>\<rparr>)\<rparr>,
                None))"
  using pop_observes_empty[of 0 empty_memory fresh_queue 0 new_node]
  by (simp add: lock_free_queue_def Let_def empty_memory_def fresh_queue_def new_node_def word30_max)

text \<open>
  Claim C7. Let a queue, reached from a fresh one by completed operations, hold \<open>n\<close> values
  (pushed and not yet popped). Then \<open>n\<close> pops return the \<open>n\<close> values, the next pop
  returns empty, and the destructor's loop \<open>while (pop()) {}\<close> stops in exactly the state after
  these \<open>n + 1\<close> pops: all value copies are released and a single queue node, the dummy
  named by \<open>head\<close>, is left. The destructor then frees that node, which returns the node
  heap and the value heap to what they were before the queue was constructed.
\<close>

theorem destructor_drains:
  assumes "nodes m a = None" and "lock_free_queue (Some a) m = Inr s0" and "allocs_fresh s0 cs"
  shows "\<exists>s outs s1 outs1 s2 front.
           run s0 cs = Some (Inr (s, outs)) \<and>
           run s (replicate (length (pushed cs) - length (somes outs)) Pop) = Some (Inr (s1, outs1)) \<and>
           length outs1 = length (pushed cs) - length (somes outs) \<and>
           None \<notin> set outs1 \<and>
           somes outs @ somes outs1 = pushed cs \<and>
           pop s1 = Some (Inr (s2, None)) \<and>
           dtor_loop s = Some (Inr s2) \<and>
           ptr (head s2) = Some front \<and> nodes s2 front \<noteq> None \<and>
           (\<forall>b. b \<noteq> front \<longrightarrow> nodes s2 b = nodes m b) \<and>
           vals s2 = vals m \<and>
           lock_free_queue_dtor s = Some (Inr (s2\<lparr>nodes := nodes m\<rparr>))"
proof -
  from construct_inv[OF assms(1)] assms(2)
  have i0: "ninv (nodes m) s0 [a] []" "vinv (vals m) s0 []" by auto
  from run_inv[OF i0 assms(3)] obtain s outs as ds where
    r0: "run s0 cs = Some (Inr (s, outs))" and
    r: "ninv (nodes m) s as ds" "vinv (vals m) s ds"
       "somes outs @ queued s ds = queued s0 [] @ pushed cs"
    by blast
  from r(3) have eq: "somes outs @ queued s ds = pushed cs" by (simp add: queued_def)
  then have "length (somes outs) + length (queued s ds) = length (pushed cs)"
    by (metis length_append)
  then have len: "length (pushed cs) - length (somes outs) = length ds"
    by (simp add: queued_def)
  from drain_run[OF r(1,2)] obtain s1 where
    d: "run s (replicate (length ds) Pop) = Some (Inr (s1, map Some (queued s ds)))"
       "ninv (nodes m) s1 [last as] []" "vinv (vals m) s1 []"
    by blast
  from pop_empty_inv[OF d(2)] obtain s2 where
    p: "pop s1 = Some (Inr (s2, None))" "ninv (nodes m) s2 [last as] []" "vals s2 = vals s1"
    by blast
  have dl: "dtor_loop s = Some (Inr s2)"
    by (rule dtor_loop_run[OF d(1) _ p(1)]) auto
  from p(2) have hd: "ptr (head s2) = Some (last as)"
    and al: "nodes s2 (last as) \<noteq> None"
    and fr: "\<forall>b. b \<noteq> last as \<longrightarrow> nodes s2 b = nodes m b"
    and m0: "nodes m (last as) = None"
    by (auto simp: ninv_def split: option.splits)
  from fr m0 have nm: "(nodes s2)(last as := None) = nodes m" by auto
  from d(3) p(3) have vm: "vals s2 = vals m" by (auto simp: vinv_def)
  have dt: "lock_free_queue_dtor s = Some (Inr (s2\<lparr>nodes := nodes m\<rparr>))"
    using al by (auto simp: lock_free_queue_dtor_def dl hd nm)
  have "run s (replicate (length (pushed cs) - length (somes outs)) Pop)
          = Some (Inr (s1, map Some (queued s ds)))"
    using d(1) by (simp add: len)
  moreover have "length (map Some (queued s ds)) = length (pushed cs) - length (somes outs)"
    by (simp add: len queued_def)
  moreover have "None \<notin> set (map Some (queued s ds))" by auto
  moreover have "somes outs @ somes (map Some (queued s ds)) = pushed cs" using eq by simp
  ultimately show ?thesis using r0 p(1) dl hd al fr vm dt by blast
qed

theorem destructor_drains_witness:
  "\<exists>s outs s1 outs1 s2 front.
     run fresh_queue (take 3 demo_ops) = Some (Inr (s, outs)) \<and>
     run s (replicate (length (pushed (take 3 demo_ops)) - length (somes outs)) Pop)
       = Some (Inr (s1, outs1)) \<and>
     length outs1 = length (pushed (take 3 demo_ops)) - length (somes outs) \<and>
     None \<notin> set outs1 \<and>
     somes outs @ somes outs1 = pushed (take 3 demo_ops) \<and>
     pop s1 = Some (Inr (s2, None)) \<and>
     dtor_loop s = Some (Inr s2) \<and>
     ptr (head s2) = Some front \<and> nodes s2 front \<noteq> None \<and>
     (\<forall>b. b \<noteq> front \<longrightarrow> nodes s2 b = nodes empty_memory b) \<and>
     vals s2 = vals empty_memory \<and>
     lock_free_queue_dtor s = Some (Inr (s2\<lparr>nodes := nodes empty_memory\<rparr>))"
proof -
  have h1: "nodes empty_memory 0 = None" by (simp add: empty_memory_def)
  have h3: "allocs_fresh fresh_queue (take 3 demo_ops)" by code_simp
  show ?thesis
    using destructor_drains[OF h1 construct_empty_memory h3] .
qed

text \<open>
  Claim C8. \<open>push\<close> allocates the heap copy of the value and the successor dummy before it
  touches \<open>tail\<close> or any node: if the first allocation fails, or the second one fails
  (the copy is then released again), the exception leaves exactly the state \<open>push\<close> was
  called in; when both succeed, everything else \<open>push\<close> does is the CAS loop run on the
  state that holds the two new objects.
\<close>

theorem push_alloc_failure_no_effect:
  assumes "vals s d = None"
  shows "push v None alloc_node s = Some (Inl (Bad_alloc s)) \<and>
         push v (Some d) None s = Some (Inl (Bad_alloc s)) \<and>
         push v (Some d) (Some n) s =
           push_loop d \<lparr>counted_node_ptr.external_count = 1, ptr = Some n\<rparr> (tail s)
             (s\<lparr>vals := (vals s)(d \<mapsto> v), nodes := (nodes s)(n \<mapsto> new_node)\<rparr>)"
proof -
  from assms have "(vals s)(d := None) = vals s" by (rule fun_upd_idem)
  then show ?thesis by (simp add: push_def Let_def)
qed

theorem push_alloc_failure_no_effect_witness:
  "vals fresh_queue 0 = None \<and>
   push 7 None (Some 1) fresh_queue = Some (Inl (Bad_alloc fresh_queue)) \<and>
   push 7 (Some 0) None fresh_queue = Some (Inl (Bad_alloc fresh_queue))"
  using push_alloc_failure_no_effect[of fresh_queue 0 7 "Some 1" 1]
  by (simp add: fresh_queue_def)

text \<open>
  Claim C9 fails on the code: there is a concurrent execution that no sequential order of
  its operations explains. On \<open>fresh_queue\<close>, with dummy \<open>D\<close> at address \<open>0\<close>:
  the second producer enters \<open>push(20)\<close>, claims the tail \<open>D\<close> and is preempted before its
  data CAS; the first producer runs \<open>push(10)\<close> to completion; a consumer's \<open>pop\<close> returns
  \<open>10\<close>, resetting \<open>D.data\<close> to null; the second producer resumes, and its CAS on
  \<open>D.data\<close>, which only tests for null, succeeds on the node that has already been
  popped, so \<open>push(20)\<close> returns. After these three completed operations the next \<open>pop\<close>
  returns empty and the one after it dereferences the null \<open>head.ptr\<close>: the pushed \<open>20\<close>
  is lost. Run one after the other in any order that keeps \<open>push(10)\<close> before the first
  \<open>pop\<close>, the same operations leave \<open>20\<close> (or \<open>10\<close>) for the next \<open>pop\<close>, never empty.
\<close>

theorem lost_push_interleaving:
  "\<exists>old_tail q2 q3 q4 q5 q6.
     second_producer_claimed = (old_tail, q2) \<and>
     push 10 (Some 0) (Some 1) q2 = Some (Inr q3) \<and>
     step Pop q3 = Some (Inr (q4, [Some 10])) \<and>
     push_install 1 \<lparr>counted_node_ptr.external_count = 1, ptr = Some 2\<rparr> old_tail q4 = Inr (Break q5) \<and>
     step Pop q5 = Some (Inr (q6, [None])) \<and>
     step Pop q6 = Some (Inl (Fault Null_deref)) \<and>
     outputs (run fresh_queue [Push 10 0 1, Push 20 1 2, Pop, Pop]) = Some [Some 10, Some 20] \<and>
     outputs (run fresh_queue [Push 10 0 1, Pop, Push 20 1 2, Pop]) = Some [Some 10, Some 20] \<and>
     outputs (run fresh_queue [Push 20 1 2, Push 10 0 1, Pop, Pop]) = Some [Some 20, Some 10]"
proof -
  obtain old_tail q2 where c: "second_producer_claimed = (old_tail, q2)"
    by (cases second_producer_claimed) auto
  from lost_push_eval have e1:
    "case push 10 (Some 0) (Some 1) q2 of
           Some (Inr q3) \<Rightarrow>
             (case step Pop q3 of
                Some (Inr (q4, out1)) \<Rightarrow>
                  out1 = [Some 10] \<and>
                  (case push_install 1 \<lparr>counted_node_ptr.external_count = 1, ptr = Some 2\<rparr> old_tail q4 of
                     Inr (Break q5) \<Rightarrow>
                       (case step Pop q5 of
                          Some (Inr (q6, out2)) \<Rightarrow>
                            out2 = [None] \<and>
                            (case step Pop q6 of
                               Some (Inl (Fault f)) \<Rightarrow> f = Null_deref
                             | _ \<Rightarrow> False)
                        | _ \<Rightarrow> False)
                   | _ \<Rightarrow> False)
              | _ \<Rightarrow> False)
         | _ \<Rightarrow> False"
    by (simp only: c prod.case)
  from returnedD[OF e1] obtain q3 where
    p1: "push 10 (Some 0) (Some 1) q2 = Some (Inr q3)" and
    e2: "case step Pop q3 of
                Some (Inr (q4, out1)) \<Rightarrow>
                  out1 = [Some 10] \<and>
                  (case push_install 1 \<lparr>counted_node_ptr.external_count = 1, ptr = Some 2\<rparr> old_tail q4 of
                     Inr (Break q5) \<Rightarrow>
                       (case step Pop q5 of
                          Some (Inr (q6, out2)) \<Rightarrow>
                            out2 = [None] \<and>
                            (case step Pop q6 of
                               Some (Inl (Fault f)) \<Rightarrow> f = Null_deref
                             | _ \<Rightarrow> False)
                        | _ \<Rightarrow> False)
                   | _ \<Rightarrow> False)
              | _ \<Rightarrow> False"
    by blast
  from returnedD[OF e2] obtain q4 out1 where
    c1: "step Pop q3 = Some (Inr (q4, out1))" "out1 = [Some 10]" and
    e3: "case push_install 1 \<lparr>counted_node_ptr.external_count = 1, ptr = Some 2\<rparr> old_tail q4 of
                     Inr (Break q5) \<Rightarrow>
                       (case step Pop q5 of
                          Some (Inr (q6, out2)) \<Rightarrow>
                            out2 = [None] \<and>
                            (case step Pop q6 of
                               Some (Inl (Fault f)) \<Rightarrow> f = Null_deref
                             | _ \<Rightarrow> False)
                        | _ \<Rightarrow> False)
                   | _ \<Rightarrow> False"
    by auto
  from left_loopD[OF e3] obtain q5 where
    p2: "push_install 1 \<lparr>counted_node_ptr.external_count = 1, ptr = Some 2\<rparr> old_tail q4 = Inr (Break q5)" and
    e4: "case step Pop q5 of
                          Some (Inr (q6, out2)) \<Rightarrow>
                            out2 = [None] \<and>
                            (case step Pop q6 of
                               Some (Inl (Fault f)) \<Rightarrow> f = Null_deref
                             | _ \<Rightarrow> False)
                        | _ \<Rightarrow> False"
    by blast
  from returnedD[OF e4] obtain q6 out2 where
    c2: "step Pop q5 = Some (Inr (q6, out2))" "out2 = [None]" and
    e5: "case step Pop q6 of
                               Some (Inl (Fault f)) \<Rightarrow> f = Null_deref
                             | _ \<Rightarrow> False"
    by auto
  from faultedD[OF e5] have c3: "step Pop q6 = Some (Inl (Fault Null_deref))"
    by blast
  from c p1 c1 p2 c2 c3 sequential_order_10_20 sequential_order_10_pop_20 sequential_order_20_10
  show ?thesis by blast
qed

text \<open>
  Claim C10. The node counter is a pair of unsigned bit-fields, 30 and 2 bits wide, so every
  update is taken modulo \<open>2 ^ 30\<close> and modulo \<open>4\<close>: \<open>release_ref\<close> stores
  \<open>(internal_count - 1) mod 2 ^ 30\<close>, which on an internal count of \<open>0\<close> is
  \<open>2 ^ 30 - 1\<close> (and the node is kept); \<open>free_external_counter\<close> stores
  \<open>(internal_count + (external_count - 2)) mod 2 ^ 30\<close> and the holder count minus one
  modulo \<open>4\<close>.
\<close>

theorem node_counter_updates_wrap:
  assumes "h a = Some nd" and "ptr p = Some a"
  shows
    "(\<exists>c. c = (count nd)\<lparr>internal_count := internal_count (count nd) - 1\<rparr> \<and>
          release_ref a h =
            Inr (if internal_count c = 0 \<and> node_counter.external_count c = 0
                 then h(a := None) else h(a \<mapsto> nd\<lparr>count := c\<rparr>)) \<and>
          uint (internal_count c) = (uint (internal_count (count nd)) - 1) mod 2 ^ 30 \<and>
          (internal_count (count nd) = 0 \<longrightarrow>
             uint (internal_count c) = 2 ^ 30 - 1 \<and>
             release_ref a h = Inr (h(a \<mapsto> nd\<lparr>count := c\<rparr>)))) \<and>
     (\<exists>c. free_external_counter p h =
            Inr (if internal_count c = 0 \<and> node_counter.external_count c = 0
                 then h(a := None) else h(a \<mapsto> nd\<lparr>count := c\<rparr>)) \<and>
          uint (internal_count c) =
            (uint (internal_count (count nd)) + (sint (counted_node_ptr.external_count p) - 2))
              mod 2 ^ 30 \<and>
          uint (node_counter.external_count c) =
            (uint (node_counter.external_count (count nd)) - 1) mod 4)"
proof (rule conjI)
  let ?c = "(count nd)\<lparr>internal_count := internal_count (count nd) - 1\<rparr>"
  have r: "release_ref a h =
            Inr (if internal_count ?c = 0 \<and> node_counter.external_count ?c = 0
                 then h(a := None) else h(a \<mapsto> nd\<lparr>count := ?c\<rparr>))"
    using release_ref_eq[where h=h and a=a and nd=nd] assms(1) by simp
  have z: "internal_count (count nd) = 0 \<Longrightarrow> uint (internal_count ?c) = 2 ^ 30 - 1"
    using uint_minus1_30 by simp
  have z': "internal_count (count nd) = 0 \<Longrightarrow> internal_count ?c \<noteq> 0"
    using minus1_30_neq0 by simp
  show "\<exists>c. c = ?c \<and>
          release_ref a h =
            Inr (if internal_count c = 0 \<and> node_counter.external_count c = 0
                 then h(a := None) else h(a \<mapsto> nd\<lparr>count := c\<rparr>)) \<and>
          uint (internal_count c) = (uint (internal_count (count nd)) - 1) mod 2 ^ 30 \<and>
          (internal_count (count nd) = 0 \<longrightarrow>
             uint (internal_count c) = 2 ^ 30 - 1 \<and>
             release_ref a h = Inr (h(a \<mapsto> nd\<lparr>count := c\<rparr>)))"
    using r z z' by (auto simp: uint_dec30)
next
  let ?c = "\<lparr>internal_count = internal_count (count nd) + (ucast (counted_node_ptr.external_count p) - 2),
            node_counter.external_count = node_counter.external_count (count nd) - 1\<rparr>"
  have "free_external_counter p h =
            Inr (if internal_count ?c = 0 \<and> node_counter.external_count ?c = 0
                 then h(a := None) else h(a \<mapsto> nd\<lparr>count := ?c\<rparr>))"
    using free_external_counter_eq[where p=p and a=a and h=h and nd=nd] assms by (simp add: Let_def)
  moreover have "uint (internal_count ?c) =
            (uint (internal_count (count nd)) + (sint (counted_node_ptr.external_count p) - 2))
              mod 2 ^ 30"
    by (simp add: retire_uint)
  moreover have "uint (node_counter.external_count ?c) =
            (uint (node_counter.external_count (count nd)) - 1) mod 4"
    by (simp add: uint_dec2)
  ultimately show "\<exists>c. free_external_counter p h =
            Inr (if internal_count c = 0 \<and> node_counter.external_count c = 0
                 then h(a := None) else h(a \<mapsto> nd\<lparr>count := c\<rparr>)) \<and>
          uint (internal_count c) =
            (uint (internal_count (count nd)) + (sint (counted_node_ptr.external_count p) - 2))
              mod 2 ^ 30 \<and>
          uint (node_counter.external_count c) =
            (uint (node_counter.external_count (count nd)) - 1) mod 4"
    by blast
qed

theorem node_counter_updates_wrap_witness:
  "(case release_ref 0 (Map.empty(0 \<mapsto> new_node)) of
      Inl f \<Rightarrow> False
    | Inr h \<Rightarrow>
        (case h 0 of
           None \<Rightarrow> False
         | Some nd \<Rightarrow> uint (internal_count (count nd)) = 1073741823 \<and>
                     node_counter.external_count (count nd) = 2))"
  using node_counter_updates_wrap
          [of "Map.empty(0 \<mapsto> new_node)" 0 new_node
              "\<lparr>counted_node_ptr.external_count = 1, ptr = Some 0\<rparr>"]
  by (simp add: new_node_def)

end
